theory Spec2Isabelle
  imports Complex_Main "HOL-Library.Word"
begin

section \<open>The segment store of \<^verbatim>\<open>segment_adv4.c\<close>\<close>

text \<open>
  The program keeps a pool of \<^verbatim>\<open>NUM_SEGMENTS\<close> segments of \<^verbatim>\<open>SEGMENT_SIZE\<close> bytes each.
  The C arrays have a fixed size, so they are modelled as functions from the index; only
  the indices below the array's size are ever read or written. A \<^verbatim>\<open>Segment *\<close> into the
  pool is the index of the segment, \<^verbatim>\<open>NULL\<close> is \<open>None\<close>. Every \<^verbatim>\<open>uint64_t\<close> is a 64-bit
  word, so that \<open>+\<close> and \<open>-\<close> wrap around as they do in C.
\<close>

type_synonym u64 = "64 word"

definition SEGMENT_SIZE :: nat where
  "SEGMENT_SIZE = 1024"

definition NUM_SEGMENTS :: nat where
  "NUM_SEGMENTS = 1024"

subsection \<open>Double precision arithmetic\<close>

text \<open>
  A \<^verbatim>\<open>double\<close> is modelled by the rational number it denotes. Every operation of the
  program (conversion from an integer, \<open>+\<close>, \<open>-\<close>, \<open>/\<close>, a decimal literal) is the exact
  operation followed by rounding to the nearest number with a 53-bit significand, ties to
  the even significand. The exponent range is not modelled: the values the program computes
  (counters, ratios of counters and sums of costs between 2 and 2097152) stay far inside it.
\<close>

type_synonym double = rat

function binade :: "rat \<Rightarrow> int" where
  "binade x =
     (if x \<le> 0 then 0
      else if 2 \<le> x then binade (x / 2) + 1
      else if x < 1 then binade (2 * x) - 1
      else 0)"
  by pat_completeness auto
termination
proof (relation "measure (\<lambda>x. 2 * nat \<lceil>1 / x\<rceil> + nat \<lceil>x\<rceil>)", goal_cases)
  case 1
  show ?case by simp
next
  case (2 x)
  then have x: "2 \<le> x" by simp
  then have "1 / x \<le> 1 / 2" by (simp add: field_simps)
  then have a: "\<lceil>1 / x\<rceil> \<le> 1" by (simp add: ceiling_le_iff)
  have "0 < 1 / x" using x by simp
  then have b: "1 \<le> \<lceil>1 / x\<rceil>" by (simp add: le_ceiling_iff del: divide_pos_pos zero_less_divide_1_iff)
  have "0 < 1 / (x / 2)" using x by simp
  moreover have "1 / (x / 2) \<le> 1" using x by (simp add: field_simps)
  ultimately have c: "\<lceil>1 / (x / 2)\<rceil> = 1"
    by (simp add: ceiling_eq_iff del: divide_pos_pos zero_less_divide_1_iff divide_divide_eq_right)
  have "x / 2 \<le> x - 1" using x by simp
  then have "\<lceil>x / 2\<rceil> \<le> \<lceil>x - 1\<rceil>" by (rule ceiling_mono)
  then have d: "\<lceil>x / 2\<rceil> < \<lceil>x\<rceil>" by simp
  have e: "0 < \<lceil>x\<rceil>" using x by (simp add: less_ceiling_iff)
  from a b have "\<lceil>1 / x\<rceil> = 1" by linarith
  with c d e show ?case by simp
next
  case (3 x)
  then have x: "0 < x" "x < 1" by simp_all
  show ?case
  proof (cases "x < 1 / 2")
    case True
    then have "2 < 1 / x" using x by (simp add: field_simps)
    then have big: "2 < \<lceil>1 / x\<rceil>" by (simp add: less_ceiling_iff)
    have "1 / (2 * x) \<le> 1 / x - 1" using x True by (simp add: field_simps)
    then have "\<lceil>1 / (2 * x)\<rceil> \<le> \<lceil>1 / x - 1\<rceil>" by (rule ceiling_mono)
    then have a: "\<lceil>1 / (2 * x)\<rceil> \<le> \<lceil>1 / x\<rceil> - 1" by simp
    have "0 < 2 * x" "2 * x \<le> 1" using x True by simp_all
    then have b: "\<lceil>2 * x\<rceil> = 1" by (simp add: ceiling_eq_iff)
    have c: "\<lceil>x\<rceil> = 1" using x by (simp add: ceiling_eq_iff)
    have "0 < 1 / (2 * x)" using x by simp
    then have d: "0 < \<lceil>1 / (2 * x)\<rceil>" by (simp add: less_ceiling_iff del: divide_pos_pos zero_less_divide_1_iff)
    from a b c d big show ?thesis by simp
  next
    case False
    then have h: "1 / 2 \<le> x" by simp
    have "1 < 1 / x" using x by (simp add: field_simps)
    moreover have "1 / x \<le> 2" using x h by (simp add: field_simps)
    ultimately have a: "\<lceil>1 / x\<rceil> = 2" by (simp add: ceiling_eq_iff)
    have "0 < 1 / (2 * x)" using x by simp
    moreover have "1 / (2 * x) \<le> 1" using x h by (simp add: field_simps)
    ultimately have b: "\<lceil>1 / (2 * x)\<rceil> = 1"
      by (simp add: ceiling_eq_iff del: divide_pos_pos zero_less_divide_1_iff)
    have "2 * x < 2" using x by simp
    then have c: "\<lceil>2 * x\<rceil> \<le> 2" by (simp add: ceiling_le_iff)
    have "0 < 2 * x" using x by simp
    then have d: "0 < \<lceil>2 * x\<rceil>" by (simp add: less_ceiling_iff)
    have e: "\<lceil>x\<rceil> = 1" using x by (simp add: ceiling_eq_iff)
    from c d have f: "nat \<lceil>2 * x\<rceil> \<le> 2" by linarith
    from a b e f show ?thesis by simp
  qed
qed

declare binade.simps [simp del]

definition round_even :: "rat \<Rightarrow> int" where
  "round_even q =
     (let n = \<lfloor>q\<rfloor>; f = q - of_int n
      in if f < 1 / 2 then n else if 1 / 2 < f then n + 1 else if even n then n else n + 1)"

definition ulp :: "rat \<Rightarrow> rat" where
  "ulp x = 2 powi (binade x - 52)"

definition rnd :: "rat \<Rightarrow> double" where
  "rnd x =
     (if x = 0 then 0
      else if 0 < x then of_int (round_even (x / ulp x)) * ulp x
      else - (of_int (round_even (- x / ulp (- x))) * ulp (- x)))"

definition d_of_int :: "int \<Rightarrow> double" where
  "d_of_int n = rnd (of_int n)"

definition d_of_u64 :: "u64 \<Rightarrow> double" where
  "d_of_u64 w = rnd (of_nat (unat w))"

definition d_add :: "double \<Rightarrow> double \<Rightarrow> double" where
  "d_add x y = rnd (x + y)"

definition d_sub :: "double \<Rightarrow> double \<Rightarrow> double" where
  "d_sub x y = rnd (x - y)"

definition d_div :: "double \<Rightarrow> double \<Rightarrow> double" where
  "d_div x y = rnd (x / y)"

definition GC_THRESHOLD :: double where
  "GC_THRESHOLD = rnd (9 / 10)"


subsection \<open>Segments, the segment manager and write requests\<close>

text \<open>
  \<^verbatim>\<open>int valid[SEGMENT_SIZE]\<close> is only ever tested for being non-zero and assigned 0 or 1:
  an entry is modelled by its truth value.
\<close>

record Segment =
  segmentId :: int
  utilization :: u64
  data :: "nat \<Rightarrow> 8 word"
  valid :: "nat \<Rightarrow> bool"
  invalidatedBytes :: u64

record SegmentManager =
  segments :: "nat \<Rightarrow> Segment"
  totalWrites :: u64
  totalInvalidated :: u64
  gcCount :: u64
  totalGcCost :: double

record WriteRequest =
  offset :: u64
  size_w :: u64

text \<open>An assignment through a pointer to the segment \<open>t\<close> of the pool.\<close>

definition seg_update :: "nat \<Rightarrow> (Segment \<Rightarrow> Segment) \<Rightarrow> SegmentManager \<Rightarrow> SegmentManager" where
  "seg_update t f m = m\<lparr>segments := (segments m)(t := f (segments m t))\<rparr>"

text \<open>
  \<^verbatim>\<open>for (int i = a; i < n; i++)\<close> with no early exit, and
  \<^verbatim>\<open>for (uint64_t i = a; i < e; i++)\<close>. In the second, \<open>i + 1\<close> cannot wrap around, since
  \<open>i < e\<close>.
\<close>

function for_int :: "nat \<Rightarrow> nat \<Rightarrow> (nat \<Rightarrow> 's \<Rightarrow> 's) \<Rightarrow> 's \<Rightarrow> 's" where
  "for_int i n body s = (if i < n then for_int (Suc i) n body (body i s) else s)"
  by pat_completeness auto
termination
  by (relation "measure (\<lambda>(i, n, body, s). n - i)") auto

declare for_int.simps [simp del]

function for_u64 :: "u64 \<Rightarrow> u64 \<Rightarrow> (u64 \<Rightarrow> 's \<Rightarrow> 's) \<Rightarrow> 's \<Rightarrow> 's" where
  "for_u64 i e body s = (if i < e then for_u64 (i + 1) e body (body i s) else s)"
  by pat_completeness auto
termination
proof (relation "measure (\<lambda>(i, e, body, s). unat e - unat i)", goal_cases)
  case 1
  show ?case by simp
next
  case (2 i e body s)
  then have lt: "unat i < unat e" by (simp add: word_less_nat_alt)
  have "unat e < 2 ^ 64" using unsigned_less [of e] by simp
  with lt have "unat i + 1 < 2 ^ 64" by simp
  then have "unat (i + 1) = unat i + 1" by (simp add: unat_word_ariths)
  with lt show ?case by simp
qed

declare for_u64.simps [simp del]

subsection \<open>\<^verbatim>\<open>initSegmentManager\<close>\<close>

text \<open>
  \<^verbatim>\<open>memset(p, 0, n)\<close> clears \<open>n\<close> bytes. On the \<^verbatim>\<open>uint8_t\<close> array \<^verbatim>\<open>data\<close> these are the
  first \<open>n\<close> entries. On the \<^verbatim>\<open>int\<close> array \<^verbatim>\<open>valid\<close> an entry takes \<^verbatim>\<open>sizeof(int)\<close>
  bytes, so the entries cleared are the first \<open>n div sizeof(int)\<close>; the others keep what
  the memory held. \<^verbatim>\<open>sizeof(int)\<close> is not fixed by the program's text: it is 4 on the
  platforms where \<^verbatim>\<open>uint64_t\<close> prints with \<^verbatim>\<open>%lu\<close>, as the program has it.
\<close>

definition sizeof_int :: nat where
  "sizeof_int = 4"

definition memset_data :: "(nat \<Rightarrow> 8 word) \<Rightarrow> 8 word \<Rightarrow> nat \<Rightarrow> (nat \<Rightarrow> 8 word)" where
  "memset_data d c n = (\<lambda>j. if j < n then c else d j)"

definition memset_valid0 :: "(nat \<Rightarrow> bool) \<Rightarrow> nat \<Rightarrow> (nat \<Rightarrow> bool)" where
  "memset_valid0 v n = (\<lambda>j. if j < n div sizeof_int then False else v j)"

definition init_segment :: "nat \<Rightarrow> SegmentManager \<Rightarrow> SegmentManager" where
  "init_segment i m =
     seg_update i (\<lambda>s. s\<lparr>segmentId := int i, utilization := 0, invalidatedBytes := 0,
                          data := memset_data (data s) 0 SEGMENT_SIZE,
                          valid := memset_valid0 (valid s) SEGMENT_SIZE\<rparr>) m"

text \<open>The argument is the memory the manager occupies before the call.\<close>

definition initSegmentManager :: "SegmentManager \<Rightarrow> SegmentManager" where
  "initSegmentManager m =
     (for_int 0 NUM_SEGMENTS init_segment m)
       \<lparr>totalWrites := 0, totalInvalidated := 0, gcCount := 0, totalGcCost := 0\<rparr>"

subsection \<open>\<^verbatim>\<open>findSegmentForWrite\<close>\<close>

text \<open>
  The sum \<^verbatim>\<open>utilization + size\<close> is a \<^verbatim>\<open>uint64_t\<close> sum; the comparison with
  \<^verbatim>\<open>SEGMENT_SIZE\<close> is unsigned.
\<close>

definition fits :: "SegmentManager \<Rightarrow> u64 \<Rightarrow> nat \<Rightarrow> bool" where
  "fits m sz i \<longleftrightarrow> unat (utilization (segments m i) + sz) \<le> SEGMENT_SIZE"

function findSegment_from :: "SegmentManager \<Rightarrow> u64 \<Rightarrow> nat \<Rightarrow> nat option" where
  "findSegment_from m sz i =
     (if i < NUM_SEGMENTS
      then (if fits m sz i then Some i else findSegment_from m sz (Suc i))
      else None)"
  by pat_completeness auto
termination
  by (relation "measure (\<lambda>(m, sz, i). NUM_SEGMENTS - i)") auto

declare findSegment_from.simps [simp del]

definition findSegmentForWrite :: "SegmentManager \<Rightarrow> u64 \<Rightarrow> nat option" where
  "findSegmentForWrite m sz = findSegment_from m sz 0"

subsection \<open>\<^verbatim>\<open>invalidateOldData\<close> and \<^verbatim>\<open>writeToSegment\<close>\<close>

definition invalidate_byte :: "nat \<Rightarrow> u64 \<Rightarrow> SegmentManager \<Rightarrow> SegmentManager" where
  "invalidate_byte t i m =
     (if unat i < SEGMENT_SIZE \<and> valid (segments m t) (unat i)
      then (seg_update t (\<lambda>s. s\<lparr>valid := (valid s)(unat i := False),
                                 utilization := utilization s - 1,
                                 invalidatedBytes := invalidatedBytes s + 1\<rparr>) m)
             \<lparr>totalInvalidated := totalInvalidated m + 1\<rparr>
      else m)"

definition invalidateOldData :: "nat \<Rightarrow> u64 \<Rightarrow> u64 \<Rightarrow> SegmentManager \<Rightarrow> SegmentManager" where
  "invalidateOldData t off sz m = for_u64 off (off + sz) (invalidate_byte t) m"

definition write_byte :: "nat \<Rightarrow> u64 \<Rightarrow> SegmentManager \<Rightarrow> SegmentManager" where
  "write_byte t i m =
     (if unat i < SEGMENT_SIZE
      then seg_update t (\<lambda>s. let s1 = s\<lparr>data := (data s)(unat i := 1)\<rparr>
                              in if \<not> valid s1 (unat i)
                                 then s1\<lparr>valid := (valid s1)(unat i := True),
                                         utilization := utilization s1 + 1\<rparr>
                                 else s1) m
      else m)"

definition writeToSegment :: "nat \<Rightarrow> u64 \<Rightarrow> u64 \<Rightarrow> SegmentManager \<Rightarrow> SegmentManager" where
  "writeToSegment t off sz m = for_u64 off (off + sz) (write_byte t) m"

subsection \<open>\<^verbatim>\<open>isGarbageCollectionNeeded\<close>\<close>

definition count_used :: "SegmentManager \<Rightarrow> nat \<Rightarrow> int \<Rightarrow> int" where
  "count_used m i usedSegments =
     (if 0 < utilization (segments m i) then usedSegments + 1 else usedSegments)"

definition usedSegments :: "SegmentManager \<Rightarrow> int" where
  "usedSegments m = for_int 0 NUM_SEGMENTS (count_used m) 0"

definition isGarbageCollectionNeeded :: "SegmentManager \<Rightarrow> bool" where
  "isGarbageCollectionNeeded m \<longleftrightarrow>
     GC_THRESHOLD \<le> d_div (d_of_int (usedSegments m)) (d_of_int (int NUM_SEGMENTS))"

subsection \<open>\<^verbatim>\<open>garbageCollect\<close>\<close>

text \<open>
  The function prints what it did; the model returns it. \<^verbatim>\<open>victimIndex\<close> is \<open>None\<close> where
  the program has \<open>-1\<close>.
\<close>

datatype gc_cost = Finite double | InfinitySymbol

datatype gc_outcome = NoVictim | NoDestination | VictimReclaimed int gc_cost

definition select_victim :: "SegmentManager \<Rightarrow> nat \<Rightarrow> nat option \<times> u64 \<Rightarrow> nat option \<times> u64" where
  "select_victim m i st =
     (case st of (victimIndex, maxInvalidated) \<Rightarrow>
        if maxInvalidated < invalidatedBytes (segments m i) \<and> 0 < utilization (segments m i)
        then (Some i, invalidatedBytes (segments m i))
        else (victimIndex, maxInvalidated))"

definition victim_of :: "SegmentManager \<Rightarrow> nat option" where
  "victim_of m = fst (for_int 0 NUM_SEGMENTS (select_victim m) (None, 0))"

definition copy_byte :: "nat \<Rightarrow> nat \<Rightarrow> nat \<Rightarrow> SegmentManager \<Rightarrow> SegmentManager" where
  "copy_byte victim newSegment i m =
     (if valid (segments m victim) i
      then seg_update victim (\<lambda>s. s\<lparr>valid := (valid s)(i := False)\<rparr>)
             (writeToSegment newSegment (of_nat i) 1 m)
      else m)"

definition reset_victim :: "nat \<Rightarrow> SegmentManager \<Rightarrow> SegmentManager" where
  "reset_victim victim m =
     seg_update victim (\<lambda>s. s\<lparr>utilization := 0, invalidatedBytes := 0,
                               data := memset_data (data s) 0 SEGMENT_SIZE\<rparr>) m"

definition compact :: "nat \<Rightarrow> nat \<Rightarrow> SegmentManager \<Rightarrow> SegmentManager" where
  "compact victim newSegment m =
     reset_victim victim (for_int 0 SEGMENT_SIZE (copy_byte victim newSegment) m)"

definition fillRatio :: "SegmentManager \<Rightarrow> double" where
  "fillRatio m = d_div (d_of_u64 (totalWrites m)) (d_of_int (int (NUM_SEGMENTS * SEGMENT_SIZE)))"

definition account_cost :: "nat \<Rightarrow> SegmentManager \<Rightarrow> gc_outcome \<times> SegmentManager" where
  "account_cost victim m =
     (let u = fillRatio m
      in if u < 1
         then (let gcCost = d_div 2 (d_sub 1 u)
               in (VictimReclaimed (segmentId (segments m victim)) (Finite gcCost),
                   m\<lparr>totalGcCost := d_add (totalGcCost m) gcCost, gcCount := gcCount m + 1\<rparr>))
         else (VictimReclaimed (segmentId (segments m victim)) InfinitySymbol,
               m\<lparr>gcCount := gcCount m + 1\<rparr>))"

definition garbageCollect :: "SegmentManager \<Rightarrow> gc_outcome \<times> SegmentManager" where
  "garbageCollect m =
     (case victim_of m of
        None \<Rightarrow> (NoVictim, m)
      | Some victim \<Rightarrow>
          (case findSegmentForWrite m 0 of
             None \<Rightarrow> (NoDestination, m)
           | Some newSegment \<Rightarrow> account_cost victim (compact victim newSegment m)))"

subsection \<open>\<^verbatim>\<open>processWriteRequest\<close>\<close>

datatype write_outcome = Accepted | AllocationFailure

definition write_into :: "nat \<Rightarrow> WriteRequest \<Rightarrow> SegmentManager \<Rightarrow> SegmentManager" where
  "write_into t r m =
     (let m1 = invalidateOldData t (offset r) (size_w r) m;
          m2 = writeToSegment t (offset r) (size_w r) m1
      in m2\<lparr>totalWrites := totalWrites m2 + 1\<rparr>)"

definition processWriteRequest :: "SegmentManager \<Rightarrow> WriteRequest \<Rightarrow> write_outcome \<times> SegmentManager" where
  "processWriteRequest m r =
     (case findSegmentForWrite m (size_w r) of
        Some t \<Rightarrow> (Accepted, write_into t r m)
      | None \<Rightarrow>
          (let m1 = snd (garbageCollect m)
           in case findSegmentForWrite m1 (size_w r) of
                None \<Rightarrow> (AllocationFailure, m1)
              | Some t \<Rightarrow> (Accepted, write_into t r m1)))"

section \<open>Closed forms of the loops, invariants and example stores\<close>

definition span :: "u64 \<Rightarrow> u64 \<Rightarrow> nat set" where
  "span off sz = {unat off ..< min (unat (off + sz)) SEGMENT_SIZE}"

definition invalidate_at :: "nat \<Rightarrow> nat \<Rightarrow> SegmentManager \<Rightarrow> SegmentManager" where
  "invalidate_at t p m =
     (if p < SEGMENT_SIZE \<and> valid (segments m t) p
      then (seg_update t (\<lambda>s. s\<lparr>valid := (valid s)(p := False),
                                 utilization := utilization s - 1,
                                 invalidatedBytes := invalidatedBytes s + 1\<rparr>) m)
             \<lparr>totalInvalidated := totalInvalidated m + 1\<rparr>
      else m)"

definition invalidated :: "nat \<Rightarrow> nat set \<Rightarrow> SegmentManager \<Rightarrow> SegmentManager" where
  "invalidated t R m =
     (seg_update t (\<lambda>s. s\<lparr>valid := (\<lambda>p. valid s p \<and> p \<notin> R),
                           utilization := utilization s - of_nat (card {p \<in> R. valid s p}),
                           invalidatedBytes := invalidatedBytes s + of_nat (card {p \<in> R. valid s p})\<rparr>) m)
       \<lparr>totalInvalidated := totalInvalidated m + of_nat (card {p \<in> R. valid (segments m t) p})\<rparr>"

definition write_at :: "nat \<Rightarrow> nat \<Rightarrow> SegmentManager \<Rightarrow> SegmentManager" where
  "write_at t p m =
     (if p < SEGMENT_SIZE
      then seg_update t (\<lambda>s. let s1 = s\<lparr>data := (data s)(p := 1)\<rparr>
                              in if \<not> valid s1 p
                                 then s1\<lparr>valid := (valid s1)(p := True),
                                         utilization := utilization s1 + 1\<rparr>
                                 else s1) m
      else m)"

definition written :: "nat \<Rightarrow> nat set \<Rightarrow> SegmentManager \<Rightarrow> SegmentManager" where
  "written t R m =
     seg_update t (\<lambda>s. s\<lparr>data := (\<lambda>p. if p \<in> R then 1 else data s p),
                          valid := (\<lambda>p. valid s p \<or> p \<in> R),
                          utilization := utilization s + of_nat (card {p \<in> R. \<not> valid s p})\<rparr>) m"

definition best_upto :: "SegmentManager \<Rightarrow> nat \<Rightarrow> nat option \<times> u64 \<Rightarrow> bool" where
  "best_upto m n st \<longleftrightarrow>
     (case fst st of
        None \<Rightarrow> snd st = 0 \<and> (\<forall>j<n. \<not> (0 < invalidatedBytes (segments m j) \<and> 0 < utilization (segments m j)))
      | Some v \<Rightarrow> v < n \<and> snd st = invalidatedBytes (segments m v) \<and> 0 < utilization (segments m v)
          \<and> 0 < invalidatedBytes (segments m v)
          \<and> (\<forall>j<n. 0 < utilization (segments m j) \<longrightarrow> invalidatedBytes (segments m j) \<le> invalidatedBytes (segments m v))
          \<and> (\<forall>j<v. 0 < utilization (segments m j) \<longrightarrow> invalidatedBytes (segments m j) < invalidatedBytes (segments m v)))"

definition valid_count :: "Segment \<Rightarrow> nat" where
  "valid_count s = length (filter (valid s) [0..<SEGMENT_SIZE])"

definition seg_ok :: "Segment \<Rightarrow> bool" where
  "seg_ok s \<longleftrightarrow> unat (utilization s) = valid_count s"

definition store_ok :: "SegmentManager \<Rightarrow> bool" where
  "store_ok m \<longleftrightarrow> (\<forall>i\<in>{..<NUM_SEGMENTS}. seg_ok (segments m i))"

definition clear_below :: "nat \<Rightarrow> Segment \<Rightarrow> Segment" where
  "clear_below k s = s\<lparr>valid := (\<lambda>p. valid s p \<and> \<not> p < k)\<rparr>"

definition copied :: "nat \<Rightarrow> nat \<Rightarrow> nat \<Rightarrow> SegmentManager \<Rightarrow> SegmentManager" where
  "copied victim newSegment k m =
     seg_update victim (clear_below k)
       (written newSegment {p. p < k \<and> valid (segments m victim) p} m)"

definition init_fields :: "nat \<Rightarrow> Segment \<Rightarrow> Segment" where
  "init_fields i s = s\<lparr>segmentId := int i, utilization := 0, invalidatedBytes := 0,
                          data := memset_data (data s) 0 SEGMENT_SIZE,
                          valid := memset_valid0 (valid s) SEGMENT_SIZE\<rparr>"

definition blank_segment :: Segment where
  "blank_segment = \<lparr>segmentId = 0, utilization = 0, data = (\<lambda>_. 0), valid = (\<lambda>_. False),
                      invalidatedBytes = 0\<rparr>"

definition blank :: SegmentManager where
  "blank = \<lparr>segments = (\<lambda>_. blank_segment), totalWrites = 0, totalInvalidated = 0,
             gcCount = 0, totalGcCost = 0\<rparr>"

definition one_byte_store :: SegmentManager where
  "one_byte_store = snd (processWriteRequest (initSegmentManager blank) \<lparr>offset = 0, size_w = 1\<rparr>)"


definition first_max :: "SegmentManager \<Rightarrow> nat \<Rightarrow> bool" where
  "first_max m v \<longleftrightarrow> v < NUM_SEGMENTS \<and> 0 < utilization (segments m v) \<and> 0 < invalidatedBytes (segments m v)
       \<and> (\<forall>j<NUM_SEGMENTS. 0 < utilization (segments m j) \<longrightarrow> invalidatedBytes (segments m j) \<le> invalidatedBytes (segments m v))
       \<and> (\<forall>j<v. 0 < utilization (segments m j) \<longrightarrow> invalidatedBytes (segments m j) < invalidatedBytes (segments m v))"

definition base_of :: "SegmentManager \<Rightarrow> WriteRequest \<Rightarrow> SegmentManager" where
  "base_of m r =
     (case findSegmentForWrite m (size_w r) of Some t \<Rightarrow> m | None \<Rightarrow> snd (garbageCollect m))"

definition five_bytes :: "SegmentManager \<Rightarrow> SegmentManager" where
  "five_bytes mem = snd (processWriteRequest (initSegmentManager mem) \<lparr>offset = 0, size_w = 5\<rparr>)"

definition overwritten :: "SegmentManager \<Rightarrow> SegmentManager" where
  "overwritten mem = snd (processWriteRequest (five_bytes mem) \<lparr>offset = 2, size_w = 3\<rparr>)"

definition used_count :: "SegmentManager \<Rightarrow> nat" where
  "used_count m = card {i. i < NUM_SEGMENTS \<and> 0 < utilization (segments m i)}"

definition all_used :: SegmentManager where
  "all_used = blank\<lparr>segments := (\<lambda>i. blank_segment\<lparr>segmentId := int i, utilization := 1,
                                                       valid := (\<lambda>p. p = 0)\<rparr>)\<rparr>"

definition half_full :: SegmentManager where
  "half_full = (overwritten blank)\<lparr>totalWrites := 524288\<rparr>"

definition over_full :: SegmentManager where
  "over_full = (overwritten blank)\<lparr>totalWrites := 1048576\<rparr>"

definition seg_bounded :: "Segment \<Rightarrow> bool" where
  "seg_bounded s \<longleftrightarrow> unat (utilization s) \<le> valid_count s"

definition store_bounded :: "SegmentManager \<Rightarrow> bool" where
  "store_bounded m \<longleftrightarrow> (\<forall>i\<in>{..<NUM_SEGMENTS}. seg_bounded (segments m i))"

inductive reachable_from :: "SegmentManager \<Rightarrow> SegmentManager \<Rightarrow> bool" for mem where
  after_init: "reachable_from mem (initSegmentManager mem)"
| after_write: "reachable_from mem m \<Longrightarrow> reachable_from mem (snd (processWriteRequest m r))"
| after_collect: "reachable_from mem m \<Longrightarrow> reachable_from mem (snd (garbageCollect m))"

definition full0 :: SegmentManager where
  "full0 = snd (processWriteRequest (initSegmentManager blank) \<lparr>offset = 0, size_w = 1024\<rparr>)"

definition full0_five :: SegmentManager where
  "full0_five = snd (processWriteRequest full0 \<lparr>offset = 0, size_w = 5\<rparr>)"

definition full0_over :: SegmentManager where
  "full0_over = snd (processWriteRequest full0_five \<lparr>offset = 2, size_w = 3\<rparr>)"

definition clean :: "SegmentManager \<Rightarrow> bool" where
  "clean mem \<longleftrightarrow>
     (\<forall>i\<in>{..<NUM_SEGMENTS}. \<forall>p\<in>{SEGMENT_SIZE div sizeof_int..<SEGMENT_SIZE}. \<not> valid (segments mem i) p)"

definition used_store :: SegmentManager where
  "used_store = snd (processWriteRequest (initSegmentManager blank) \<lparr>offset = 300, size_w = 1\<rparr>)"

definition wrapping :: SegmentManager where
  "wrapping = (initSegmentManager blank)\<lparr>totalWrites := 18446744073709551615\<rparr>"

definition reclaimed :: "SegmentManager \<Rightarrow> nat \<Rightarrow> bool" where
  "reclaimed m i \<longleftrightarrow> victim_of m = Some i \<and> findSegmentForWrite m 0 \<noteq> None"

definition tail_write :: SegmentManager where
  "tail_write = snd (processWriteRequest (initSegmentManager blank) \<lparr>offset = 1020, size_w = 10\<rparr>)"

definition all_full :: SegmentManager where
  "all_full = blank\<lparr>segments := (\<lambda>i. \<lparr>segmentId = int i, utilization = 1024,
                                        data = (\<lambda>p. if p < 1024 then 1 else 0),
                                        valid = (\<lambda>p. p < 1024), invalidatedBytes = 0\<rparr>)\<rparr>"

section \<open>The loops\<close>

lemma for_int_step: "i < n \<Longrightarrow> for_int i n body s = for_int (Suc i) n body (body i s)"
  by (subst for_int.simps) simp

lemma for_int_done: "\<not> i < n \<Longrightarrow> for_int i n body s = s"
  by (subst for_int.simps) simp

lemma for_int_invariant:
  assumes "P i s" and "i \<le> n"
    and "\<And>k s. i \<le> k \<Longrightarrow> k < n \<Longrightarrow> P k s \<Longrightarrow> P (Suc k) (body k s)"
  shows "P n (for_int i n body s)"
  using assms
proof (induction i n body s rule: for_int.induct)
  case (1 i n body s)
  show ?case
  proof (cases "i < n")
    case True
    have "P (Suc i) (body i s)" using 1 True by simp
    moreover have "Suc i \<le> n" using True by simp
    ultimately have "P n (for_int (Suc i) n body (body i s))"
      using 1(1) [OF True] 1(4) by simp
    then show ?thesis using True by (simp add: for_int_step)
  next
    case False
    with 1 have "i = n" by simp
    with 1 False show ?thesis by (simp add: for_int_done)
  qed
qed

lemma unat_Suc_less: "(i::u64) < e \<Longrightarrow> unat (i + 1) = Suc (unat i)"
proof -
  assume "i < e"
  then have lt: "unat i < unat e" by (simp add: word_less_nat_alt)
  have "unat e < 2 ^ 64" using unsigned_less [of e] by simp
  with lt have "unat i + 1 < 2 ^ 64" by simp
  then show ?thesis by (simp add: unat_word_ariths)
qed

lemma for_u64_step: "i < e \<Longrightarrow> for_u64 i e body s = for_u64 (i + 1) e body (body i s)"
  by (subst for_u64.simps) simp

lemma for_u64_done: "\<not> i < e \<Longrightarrow> for_u64 i e body s = s"
  by (subst for_u64.simps) simp

lemma for_u64_as_for_int:
  "for_u64 i e body s = for_int (unat i) (unat e) (\<lambda>k. body (of_nat k)) s"
proof (induction i e body s rule: for_u64.induct)
  case (1 i e body s)
  show ?case
  proof (cases "i < e")
    case True
    then have lt: "unat i < unat e" by (simp add: word_less_nat_alt)
    show ?thesis
      using 1 [OF True] True lt by (simp add: for_u64_step for_int_step unat_Suc_less)
  next
    case False
    then have "\<not> unat i < unat e" by (simp add: word_less_nat_alt)
    with False show ?thesis by (simp add: for_u64_done for_int_done)
  qed
qed

lemma for_int_Suc_end: "i \<le> n \<Longrightarrow> for_int i (Suc n) body s = body n (for_int i n body s)"
proof (induction "n - i" arbitrary: i s)
  case 0
  then have "i = n" by simp
  then show ?case by (simp add: for_int_step for_int_done)
next
  case (Suc d)
  then have lt: "i < n" and d: "d = n - Suc i" by simp_all
  have "for_int (Suc i) (Suc n) body (body i s) = body n (for_int (Suc i) n body (body i s))"
    using Suc(1) [OF d] lt by simp
  then show ?case using lt by (simp add: for_int_step)
qed

lemma for_int_cong:
  "(\<And>k s. i \<le> k \<Longrightarrow> k < n \<Longrightarrow> f k s = g k s) \<Longrightarrow> for_int i n f s = for_int i n g s"
proof (induction i n f s rule: for_int.induct)
  case (1 i n body s)
  show ?case
  proof (cases "i < n")
    case True
    have "for_int (Suc i) n body (body i s) = for_int (Suc i) n g (body i s)"
      using 1(1) [OF True] 1(2) by simp
    moreover have "body i s = g i s" using 1(2) True by simp
    ultimately show ?thesis using True by (simp add: for_int_step)
  next
    case False
    then show ?thesis by (simp add: for_int_done)
  qed
qed

lemma invalidate_byte_of_nat:
  "k < 2 ^ 64 \<Longrightarrow> invalidate_byte t (of_nat k) m = invalidate_at t k m"
  by (simp add: invalidate_byte_def invalidate_at_def unat_of_nat)

lemma range_Suc:
  "i \<le> k \<Longrightarrow> {p. i \<le> p \<and> p < Suc k \<and> p < n} = (if k < n then insert k {p. i \<le> p \<and> p < k \<and> p < n} else {p. i \<le> p \<and> p < k \<and> p < n})"
  by (auto simp: less_Suc_eq)

lemma invalidated_empty: "invalidated t {} m = m"
  by (simp add: invalidated_def seg_update_def)

lemma invalidate_at_invalidated:
  assumes "finite R" "k \<notin> R"
  shows "invalidate_at t k (invalidated t R m) =
         (if k < SEGMENT_SIZE then invalidated t (insert k R) m else invalidated t R m)"
proof (cases "k < SEGMENT_SIZE \<and> valid (segments m t) k")
  case True
  have "{p. (p = k \<or> p \<in> R) \<and> valid (segments m t) p} = insert k {p \<in> R. valid (segments m t) p}"
    using True by auto
  moreover have "k \<notin> {p \<in> R. valid (segments m t) p}" using assms by simp
  moreover have "finite {p \<in> R. valid (segments m t) p}" using assms by simp
  ultimately have c: "card {p. (p = k \<or> p \<in> R) \<and> valid (segments m t) p} = Suc (card {p \<in> R. valid (segments m t) p})"
    by simp
  show ?thesis using True assms
    by (simp add: invalidate_at_def invalidated_def seg_update_def c fun_eq_iff)
next
  case False
  show ?thesis
  proof (cases "k < SEGMENT_SIZE")
    case True
    with False have nv: "\<not> valid (segments m t) k" by simp
    then have "{p. (p = k \<or> p \<in> R) \<and> valid (segments m t) p} = {p \<in> R. valid (segments m t) p}"
      by auto
    moreover have "(\<lambda>p. valid (segments m t) p \<and> p \<noteq> k \<and> p \<notin> R) = (\<lambda>p. valid (segments m t) p \<and> p \<notin> R)"
      using nv by (auto simp: fun_eq_iff)
    ultimately show ?thesis using True nv assms
      by (simp add: invalidate_at_def invalidated_def seg_update_def)
  next
    case False
    then show ?thesis by (simp add: invalidate_at_def)
  qed
qed

lemma for_int_invalidate_at:
  "for_int i n (invalidate_at t) m = invalidated t {p. i \<le> p \<and> p < n \<and> p < SEGMENT_SIZE} m"
proof (induction n)
  case 0
  show ?case by (simp add: for_int_done invalidated_empty)
next
  case (Suc n)
  show ?case
  proof (cases "i \<le> n")
    case True
    have fin: "finite {p. i \<le> p \<and> p < n \<and> p < SEGMENT_SIZE}" by simp
    have notin: "n \<notin> {p. i \<le> p \<and> p < n \<and> p < SEGMENT_SIZE}" by simp
    show ?thesis
      using True Suc invalidate_at_invalidated [OF fin notin, of t m]
      by (simp add: for_int_Suc_end range_Suc)
  next
    case False
    then have e: "{p. i \<le> p \<and> p < Suc n \<and> p < SEGMENT_SIZE} = {}" by auto
    show ?thesis unfolding e using False by (simp add: for_int_done invalidated_empty)
  qed
qed

lemma span_eq: "span off sz = {p. unat off \<le> p \<and> p < unat (off + sz) \<and> p < SEGMENT_SIZE}"
  by (auto simp: span_def)

lemma invalidateOldData_eq: "invalidateOldData t off sz m = invalidated t (span off sz) m"
proof -
  have "for_int (unat off) (unat (off + sz)) (\<lambda>k. invalidate_byte t (of_nat k)) m
        = for_int (unat off) (unat (off + sz)) (invalidate_at t) m"
  proof (rule for_int_cong)
    fix k s
    assume "k < unat (off + sz)"
    moreover have "unat (off + sz) < 2 ^ 64" using unsigned_less [of "off + sz"] by simp
    ultimately have "k < 2 ^ 64" by simp
    then show "invalidate_byte t (of_nat k) s = invalidate_at t k s"
      by (rule invalidate_byte_of_nat)
  qed
  then show ?thesis
    by (simp add: invalidateOldData_def for_u64_as_for_int for_int_invalidate_at span_eq)
qed

lemma write_byte_of_nat:
  "k < 2 ^ 64 \<Longrightarrow> write_byte t (of_nat k) m = write_at t k m"
  by (simp add: write_byte_def write_at_def unat_of_nat Let_def cong: if_cong)

lemma written_empty: "written t {} m = m"
  by (simp add: written_def seg_update_def)

lemma write_at_written:
  assumes "finite R" "k \<notin> R"
  shows "write_at t k (written t R m) =
         (if k < SEGMENT_SIZE then written t (insert k R) m else written t R m)"
proof (cases "k < SEGMENT_SIZE")
  case True
  obtain a b c d e where s:
    "segments m t = \<lparr>segmentId = a, utilization = b, data = c, valid = d, invalidatedBytes = e\<rparr>"
    by (cases "segments m t")
  have dd: "(\<lambda>p. if p \<in> R then 1 else c p)(k := 1) = (\<lambda>p. if p = k \<or> p \<in> R then 1 else c p)"
    by (auto simp: fun_eq_iff)
  show ?thesis
  proof (cases "d k")
    case v: True
    then have "{p. (p = k \<or> p \<in> R) \<and> \<not> d p} = {p \<in> R. \<not> d p}"
      by auto
    moreover have "(\<lambda>p. d p \<or> p = k \<or> p \<in> R) = (\<lambda>p. d p \<or> p \<in> R)"
      using v by (auto simp: fun_eq_iff)
    ultimately show ?thesis using True v assms dd
      by (simp add: write_at_def written_def seg_update_def Let_def s cong: if_cong)
  next
    case nv: False
    then have "{p. (p = k \<or> p \<in> R) \<and> \<not> d p} = insert k {p \<in> R. \<not> d p}"
      by auto
    moreover have "k \<notin> {p \<in> R. \<not> d p}" using assms by simp
    moreover have "finite {p \<in> R. \<not> d p}" using assms by simp
    ultimately have c: "card {p. (p = k \<or> p \<in> R) \<and> \<not> d p} = Suc (card {p \<in> R. \<not> d p})"
      by simp
    have "(\<lambda>p. d p \<or> p \<in> R)(k := True) = (\<lambda>p. d p \<or> p = k \<or> p \<in> R)"
      by (auto simp: fun_eq_iff)
    then show ?thesis using True nv assms dd c
      by (simp add: write_at_def written_def seg_update_def Let_def s ac_simps cong: if_cong)
  qed
next
  case False
  then show ?thesis by (simp add: write_at_def)
qed

lemma for_int_write_at:
  "for_int i n (write_at t) m = written t {p. i \<le> p \<and> p < n \<and> p < SEGMENT_SIZE} m"
proof (induction n)
  case 0
  show ?case by (simp add: for_int_done written_empty)
next
  case (Suc n)
  show ?case
  proof (cases "i \<le> n")
    case True
    have fin: "finite {p. i \<le> p \<and> p < n \<and> p < SEGMENT_SIZE}" by simp
    have notin: "n \<notin> {p. i \<le> p \<and> p < n \<and> p < SEGMENT_SIZE}" by simp
    show ?thesis
      using True Suc write_at_written [OF fin notin, of t m]
      by (simp add: for_int_Suc_end range_Suc)
  next
    case False
    then have e: "{p. i \<le> p \<and> p < Suc n \<and> p < SEGMENT_SIZE} = {}" by auto
    show ?thesis unfolding e using False by (simp add: for_int_done written_empty)
  qed
qed

lemma writeToSegment_eq: "writeToSegment t off sz m = written t (span off sz) m"
proof -
  have "for_int (unat off) (unat (off + sz)) (\<lambda>k. write_byte t (of_nat k)) m
        = for_int (unat off) (unat (off + sz)) (write_at t) m"
  proof (rule for_int_cong)
    fix k s
    assume "k < unat (off + sz)"
    moreover have "unat (off + sz) < 2 ^ 64" using unsigned_less [of "off + sz"] by simp
    ultimately have "k < 2 ^ 64" by simp
    then show "write_byte t (of_nat k) s = write_at t k s"
      by (rule write_byte_of_nat)
  qed
  then show ?thesis
    by (simp add: writeToSegment_def for_u64_as_for_int for_int_write_at span_eq)
qed

lemma findSegment_from_Some:
  "findSegment_from m sz i = Some j \<longleftrightarrow>
     i \<le> j \<and> j < NUM_SEGMENTS \<and> fits m sz j \<and> (\<forall>k. i \<le> k \<and> k < j \<longrightarrow> \<not> fits m sz k)"
proof (induction m sz i rule: findSegment_from.induct)
  case (1 m sz i)
  show ?case
  proof (cases "i < NUM_SEGMENTS")
    case False
    then show ?thesis by (subst findSegment_from.simps) auto
  next
    case True
    show ?thesis
    proof (cases "fits m sz i")
      case f: True
      have "findSegment_from m sz i = Some i"
        using True f by (subst findSegment_from.simps) simp
      moreover have "i \<le> j \<and> j < NUM_SEGMENTS \<and> fits m sz j \<and> (\<forall>k. i \<le> k \<and> k < j \<longrightarrow> \<not> fits m sz k) \<longleftrightarrow> j = i"
      proof
        assume a: "i \<le> j \<and> j < NUM_SEGMENTS \<and> fits m sz j \<and> (\<forall>k. i \<le> k \<and> k < j \<longrightarrow> \<not> fits m sz k)"
        then have "\<not> i < j" using f by auto
        with a show "j = i" by simp
      next
        assume "j = i"
        then show "i \<le> j \<and> j < NUM_SEGMENTS \<and> fits m sz j \<and> (\<forall>k. i \<le> k \<and> k < j \<longrightarrow> \<not> fits m sz k)"
          using True f by auto
      qed
      ultimately show ?thesis by auto
    next
      case nf: False
      have "findSegment_from m sz i = findSegment_from m sz (Suc i)"
        using True nf by (subst findSegment_from.simps) simp
      moreover have "(i \<le> j \<and> j < NUM_SEGMENTS \<and> fits m sz j \<and> (\<forall>k. i \<le> k \<and> k < j \<longrightarrow> \<not> fits m sz k))
        \<longleftrightarrow> (Suc i \<le> j \<and> j < NUM_SEGMENTS \<and> fits m sz j \<and> (\<forall>k. Suc i \<le> k \<and> k < j \<longrightarrow> \<not> fits m sz k))"
        using nf by (metis Suc_leD Suc_leI le_neq_implies_less)
      ultimately show ?thesis using 1 [OF True nf] by simp
    qed
  qed
qed

lemma findSegment_from_None:
  "findSegment_from m sz i = None \<longleftrightarrow> (\<forall>k. i \<le> k \<and> k < NUM_SEGMENTS \<longrightarrow> \<not> fits m sz k)"
proof (induction m sz i rule: findSegment_from.induct)
  case (1 m sz i)
  show ?case
  proof (cases "i < NUM_SEGMENTS")
    case False
    then show ?thesis by (subst findSegment_from.simps) auto
  next
    case True
    show ?thesis
    proof (cases "fits m sz i")
      case f: True
      have "findSegment_from m sz i = Some i"
        using True f by (subst findSegment_from.simps) simp
      then show ?thesis using True f by auto
    next
      case nf: False
      have "findSegment_from m sz i = findSegment_from m sz (Suc i)"
        using True nf by (subst findSegment_from.simps) simp
      moreover have "(\<forall>k. i \<le> k \<and> k < NUM_SEGMENTS \<longrightarrow> \<not> fits m sz k) \<longleftrightarrow> (\<forall>k. Suc i \<le> k \<and> k < NUM_SEGMENTS \<longrightarrow> \<not> fits m sz k)"
        using nf by (metis Suc_leD Suc_leI le_neq_implies_less)
      ultimately show ?thesis using 1 [OF True nf] by simp
    qed
  qed
qed

lemma best_upto_step: "best_upto m k st \<Longrightarrow> best_upto m (Suc k) (select_victim m k st)"
proof (cases st)
  case (Pair v mx)
  assume b: "best_upto m k st"
  show ?thesis
  proof (cases v)
    case None
    with b Pair show ?thesis
      by (auto simp: best_upto_def select_victim_def less_Suc_eq word_gt_0)
  next
    case (Some w)
    with b Pair show ?thesis
      by (auto simp: best_upto_def select_victim_def less_Suc_eq)
  qed
qed

lemma best_upto_final: "best_upto m NUM_SEGMENTS (for_int 0 NUM_SEGMENTS (select_victim m) (None, 0))"
proof (rule for_int_invariant [where P = "best_upto m"])
  show "best_upto m 0 (None, 0)" by (simp add: best_upto_def)
  show "0 \<le> NUM_SEGMENTS" by simp
  show "best_upto m (Suc k) (select_victim m k s)" if "best_upto m k s" for k s
    using that by (rule best_upto_step)
qed

lemma valid_count_card: "valid_count s = card {p. p < SEGMENT_SIZE \<and> valid s p}"
proof -
  have e: "{p. p < SEGMENT_SIZE \<and> valid s p} = set (filter (valid s) [0..<SEGMENT_SIZE])"
    by auto
  have "distinct (filter (valid s) [0..<SEGMENT_SIZE])" by simp
  then have "card (set (filter (valid s) [0..<SEGMENT_SIZE])) = length (filter (valid s) [0..<SEGMENT_SIZE])"
    by (rule distinct_card)
  then show ?thesis unfolding e valid_count_def by simp
qed

lemma valid_count_le: "valid_count s \<le> SEGMENT_SIZE"
  by (simp add: valid_count_def order_trans [OF length_filter_le])

lemma seg_okD: "seg_ok s \<Longrightarrow> unat (utilization s) \<le> SEGMENT_SIZE"
  by (simp add: seg_ok_def valid_count_le)

lemma unat_sub_of_nat:
  fixes u :: u64
  assumes "k \<le> unat u"
  shows "unat (u - of_nat k) = unat u - k"
proof -
  have "unat u < 2 ^ 64" using unsigned_less [of u] by simp
  with assms have k: "k < 2 ^ 64" by simp
  then have uk: "unat (of_nat k :: u64) = k" by (simp add: unat_of_nat)
  then have "(of_nat k :: u64) \<le> u" using assms by (simp add: word_le_nat_alt)
  then show ?thesis using uk by (simp add: unat_sub)
qed

lemma unat_add_of_nat:
  fixes u :: u64
  assumes "unat u + k < 2 ^ 64"
  shows "unat (u + of_nat k) = unat u + k"
  using assms by (simp add: unat_word_ariths unat_of_nat)

lemma SEGMENT_SIZE_small: "SEGMENT_SIZE < 2 ^ 64"
  by (simp add: SEGMENT_SIZE_def)

lemma seg_ok_invalidated:
  assumes ok: "seg_ok s" and R: "R \<subseteq> {..<SEGMENT_SIZE}"
  shows "seg_ok (s\<lparr>valid := (\<lambda>p. valid s p \<and> p \<notin> R),
                   utilization := utilization s - of_nat (card {p \<in> R. valid s p}),
                   invalidatedBytes := x\<rparr>)"
proof -
  let ?V = "{p. p < SEGMENT_SIZE \<and> valid s p}"
  let ?K = "{p \<in> R. valid s p}"
  have fin: "finite ?V" by simp
  have sub: "?K \<subseteq> ?V" using R by auto
  have le: "card ?K \<le> card ?V" using sub fin by (rule card_mono [rotated])
  have "{p. p < SEGMENT_SIZE \<and> valid s p \<and> p \<notin> R} = ?V - ?K" by auto
  then have "card {p. p < SEGMENT_SIZE \<and> valid s p \<and> p \<notin> R} = card ?V - card ?K"
    using sub fin by (simp add: card_Diff_subset finite_subset)
  moreover have "unat (utilization s - of_nat (card ?K)) = unat (utilization s) - card ?K"
    using le ok by (intro unat_sub_of_nat) (simp add: seg_ok_def valid_count_card)
  ultimately show ?thesis using ok by (simp add: seg_ok_def valid_count_card)
qed

lemma seg_ok_written:
  assumes ok: "seg_ok s" and R: "R \<subseteq> {..<SEGMENT_SIZE}"
  shows "seg_ok (s\<lparr>data := d, valid := (\<lambda>p. valid s p \<or> p \<in> R),
                   utilization := utilization s + of_nat (card {p \<in> R. \<not> valid s p})\<rparr>)"
proof -
  let ?V = "{p. p < SEGMENT_SIZE \<and> valid s p}"
  let ?K = "{p \<in> R. \<not> valid s p}"
  have fin: "finite ?V" by simp
  have finK: "finite ?K" using R by (auto intro: finite_subset [of _ "{..<SEGMENT_SIZE}"])
  have new: "{p. p < SEGMENT_SIZE \<and> (valid s p \<or> p \<in> R)} = ?V \<union> ?K" using R by auto
  have disj: "?V \<inter> ?K = {}" by auto
  have c: "card {p. p < SEGMENT_SIZE \<and> (valid s p \<or> p \<in> R)} = card ?V + card ?K"
    unfolding new using fin finK disj by (rule card_Un_disjoint)
  have "?V \<union> ?K \<subseteq> {..<SEGMENT_SIZE}" using R by auto
  then have "card (?V \<union> ?K) \<le> SEGMENT_SIZE"
    using card_mono [of "{..<SEGMENT_SIZE}" "?V \<union> ?K"] by simp
  then have "card ?V + card ?K \<le> SEGMENT_SIZE"
    using card_Un_disjoint [OF fin finK disj] by simp
  then have "unat (utilization s) + card ?K < 2 ^ 64"
    using ok SEGMENT_SIZE_small by (simp add: seg_ok_def valid_count_card)
  then have "unat (utilization s + of_nat (card ?K)) = unat (utilization s) + card ?K"
    by (rule unat_add_of_nat)
  then show ?thesis using ok c by (simp add: seg_ok_def valid_count_card)
qed

lemma span_subset: "span off sz \<subseteq> {..<SEGMENT_SIZE}"
  by (auto simp: span_def)

lemma finite_span: "finite (span off sz)"
  by (simp add: span_def)

lemma store_ok_invalidated:
  assumes "store_ok m" "R \<subseteq> {..<SEGMENT_SIZE}"
  shows "store_ok (invalidated t R m)"
  using assms seg_ok_invalidated [of "segments m t" R]
  by (auto simp: store_ok_def invalidated_def seg_update_def)

lemma store_ok_written:
  assumes "store_ok m" "R \<subseteq> {..<SEGMENT_SIZE}"
  shows "store_ok (written t R m)"
  using assms seg_ok_written [of "segments m t" R]
  by (auto simp: store_ok_def written_def seg_update_def)

lemma span_single: "k < SEGMENT_SIZE \<Longrightarrow> span (of_nat k) 1 = {k}"
proof -
  assume k: "k < SEGMENT_SIZE"
  then have k64: "k < 2 ^ 64" using SEGMENT_SIZE_small by simp
  then have a: "unat (of_nat k :: u64) = k" by (simp add: unat_of_nat)
  have "Suc k < 2 ^ 64" using k SEGMENT_SIZE_small by (simp add: SEGMENT_SIZE_def)
  then have "unat (of_nat k + 1 :: u64) = Suc k"
    using a by (simp add: unat_word_ariths)
  with a k show ?thesis by (auto simp: span_def)
qed

lemma written_written:
  assumes "finite R" "k \<notin> R" "k < SEGMENT_SIZE"
  shows "written t {k} (written t R m) = written t (insert k R) m"
proof -
  have "write_at t k (written t {} (written t R m)) = written t {k} (written t R m)"
    using assms write_at_written [of "{}" k t "written t R m"] by simp
  then have "write_at t k (written t R m) = written t {k} (written t R m)"
    by (simp add: written_empty)
  then show ?thesis using assms write_at_written [of R k t m] by simp
qed

lemma clear_below_Suc_invalid:
  assumes "\<not> valid s k"
  shows "clear_below (Suc k) s = clear_below k s"
proof -
  have "(\<lambda>p. valid s p \<and> \<not> p < Suc k) = (\<lambda>p. valid s p \<and> \<not> p < k)"
    using assms by (auto simp: fun_eq_iff less_Suc_eq)
  then show ?thesis by (simp add: clear_below_def)
qed

lemma clear_below_Suc:
  "(clear_below k s)\<lparr>valid := (valid (clear_below k s))(k := False)\<rparr> = clear_below (Suc k) s"
proof -
  have "(\<lambda>p. valid s p \<and> \<not> p < k)(k := False) = (\<lambda>p. valid s p \<and> \<not> p < Suc k)"
    by (auto simp: fun_eq_iff less_Suc_eq)
  then show ?thesis by (simp add: clear_below_def)
qed

lemma written_valid_single:
  assumes "valid (segments M t) k" "k < SEGMENT_SIZE"
  shows "written t {k} M = seg_update t (\<lambda>s. s\<lparr>data := (data s)(k := 1)\<rparr>) M"
proof -
  obtain a b c e f where s:
    "segments M t = \<lparr>segmentId = a, utilization = b, data = c, valid = e, invalidatedBytes = f\<rparr>"
    by (cases "segments M t")
  have ek: "e k" using assms s by simp
  have c1: "{p. p = k \<and> \<not> e p} = {}" using ek by auto
  have f1: "(\<lambda>p. if p = k then 1 else c p) = c(k := 1)" by (auto simp: fun_eq_iff)
  have f2: "(\<lambda>p. e p \<or> p = k) = e" using ek by (auto simp: fun_eq_iff)
  show ?thesis by (simp add: written_def seg_update_def s c1 f1 f2 cong: if_cong)
qed

lemma clear_put:
  "(clear_below k s)\<lparr>data := (data (clear_below k s))(k := 1),
                       valid := (valid (clear_below k s))(k := False)\<rparr>
   = clear_below (Suc k) (s\<lparr>data := (data s)(k := 1)\<rparr>)"
proof -
  have "(\<lambda>p. valid s p \<and> \<not> p < k)(k := False) = (\<lambda>p. valid s p \<and> \<not> p < Suc k)"
    by (auto simp: fun_eq_iff less_Suc_eq)
  then show ?thesis by (simp add: clear_below_def)
qed

lemma copied_0: "copied v d 0 m = m"
  by (simp add: copied_def clear_below_def written_empty seg_update_def)

lemma copy_byte_copied:
  assumes k: "k < SEGMENT_SIZE"
  shows "copy_byte v d k (copied v d k m) = copied v d (Suc k) m"
proof -
  let ?R = "{p. p < k \<and> valid (segments m v) p}"
  have fin: "finite ?R" by simp
  have notin: "k \<notin> ?R" by simp
  have vk: "valid (segments (copied v d k m) v) k = valid (segments m v) k"
    by (auto simp: copied_def clear_below_def written_def seg_update_def)
  show ?thesis
  proof (cases "valid (segments m v) k")
    case False
    then have r: "{p. p < Suc k \<and> valid (segments m v) p} = ?R"
      by (auto simp: less_Suc_eq)
    have "\<not> valid (segments (written d ?R m) v) k"
      using False by (auto simp: written_def seg_update_def)
    then have "clear_below (Suc k) (segments (written d ?R m) v) = clear_below k (segments (written d ?R m) v)"
      by (rule clear_below_Suc_invalid)
    then have "copied v d (Suc k) m = copied v d k m"
      unfolding copied_def r by (simp add: seg_update_def)
    then show ?thesis using False vk by (simp add: copy_byte_def)
  next
    case True
    then have r: "{p. p < Suc k \<and> valid (segments m v) p} = insert k ?R"
      by (auto simp: less_Suc_eq)
    have step: "copy_byte v d k (copied v d k m)
      = seg_update v (\<lambda>s. s\<lparr>valid := (valid s)(k := False)\<rparr>) (written d {k} (copied v d k m))"
      using True vk k by (simp add: copy_byte_def writeToSegment_eq span_single)
    show ?thesis
    proof (cases "v = d")
      case False
      have comm: "written d {k} (seg_update v (clear_below k) (written d ?R m))
                = seg_update v (clear_below k) (written d {k} (written d ?R m))"
        using False by (auto simp: written_def seg_update_def fun_eq_iff)
      have cc: "seg_update v (\<lambda>s. s\<lparr>valid := (valid s)(k := False)\<rparr>) (seg_update v (clear_below k) M)
            = seg_update v (clear_below (Suc k)) M" for M
        by (simp add: seg_update_def clear_below_Suc)
      have "copy_byte v d k (copied v d k m)
            = seg_update v (\<lambda>s. s\<lparr>valid := (valid s)(k := False)\<rparr>)
                (written d {k} (seg_update v (clear_below k) (written d ?R m)))"
        using step by (simp add: copied_def)
      also have "\<dots> = seg_update v (clear_below (Suc k)) (written d {k} (written d ?R m))"
        by (simp only: comm cc)
      also have "\<dots> = copied v d (Suc k) m"
        by (simp only: written_written [OF fin notin k] copied_def r)
      finally show ?thesis .
    next
      case vd: True
      let ?W = "written d ?R m"
      let ?put = "\<lambda>s::Segment. s\<lparr>data := (data s)(k := 1)\<rparr>"
      have vW: "valid (segments ?W d) k"
        using True vd by (simp add: written_def seg_update_def)
      have vC: "valid (segments (seg_update d (clear_below k) ?W) d) k"
        using vW by (simp add: seg_update_def clear_below_def)
      have "copy_byte v d k (copied v d k m)
            = seg_update d (\<lambda>s. s\<lparr>valid := (valid s)(k := False)\<rparr>)
                (written d {k} (seg_update d (clear_below k) ?W))"
        using step vd by (simp add: copied_def)
      also have "\<dots> = seg_update d (\<lambda>s. s\<lparr>valid := (valid s)(k := False)\<rparr>)
                (seg_update d ?put (seg_update d (clear_below k) ?W))"
        by (simp only: written_valid_single [OF vC k])
      also have "\<dots> = seg_update d (clear_below (Suc k)) (seg_update d ?put ?W)"
        by (simp add: seg_update_def clear_put)
      also have "\<dots> = seg_update d (clear_below (Suc k)) (written d {k} ?W)"
        by (simp only: written_valid_single [OF vW k])
      also have "\<dots> = seg_update d (clear_below (Suc k)) (written d (insert k ?R) m)"
        by (simp only: written_written [OF fin notin k])
      also have "\<dots> = copied v d (Suc k) m"
        unfolding copied_def r using vd by simp
      finally show ?thesis .
    qed
  qed
qed

lemma copy_loop_eq: "k \<le> SEGMENT_SIZE \<Longrightarrow> for_int 0 k (copy_byte v d) m = copied v d k m"
proof (induction k)
  case 0
  show ?case by (simp add: for_int_done copied_0)
next
  case (Suc k)
  then show ?case by (simp add: for_int_Suc_end copy_byte_copied)
qed

lemma compact_eq: "compact v d m = reset_victim v (copied v d SEGMENT_SIZE m)"
  by (simp add: compact_def copy_loop_eq)

lemma seg_ok_reset:
  "seg_ok (clear_below SEGMENT_SIZE s\<lparr>utilization := 0, invalidatedBytes := 0, data := x\<rparr>)"
proof -
  have "{p. p < SEGMENT_SIZE \<and> valid s p \<and> \<not> p < SEGMENT_SIZE} = {}" by auto
  then show ?thesis by (simp add: seg_ok_def valid_count_card clear_below_def)
qed

lemma store_ok_compact:
  assumes "store_ok m"
  shows "store_ok (compact v d m)"
proof -
  let ?R = "{p. p < SEGMENT_SIZE \<and> valid (segments m v) p}"
  have "?R \<subseteq> {..<SEGMENT_SIZE}" by auto
  with assms have w: "store_ok (written d ?R m)" by (rule store_ok_written)
  show ?thesis
    unfolding store_ok_def
  proof
    fix i assume i: "i \<in> {..<NUM_SEGMENTS}"
    show "seg_ok (segments (compact v d m) i)"
    proof (cases "i = v")
      case True
      then show ?thesis
        using seg_ok_reset [where s = "segments (written d ?R m) v"]
        by (simp add: compact_eq reset_victim_def copied_def seg_update_def)
    next
      case False
      then show ?thesis using w i
        by (simp add: compact_eq reset_victim_def copied_def seg_update_def store_ok_def)
    qed
  qed
qed

lemma compact_counters:
  "totalWrites (compact v d m) = totalWrites m"
  "totalInvalidated (compact v d m) = totalInvalidated m"
  "gcCount (compact v d m) = gcCount m"
  "totalGcCost (compact v d m) = totalGcCost m"
  by (simp_all add: compact_eq reset_victim_def copied_def seg_update_def written_def)

lemma account_cost_segments: "segments (snd (account_cost v m)) = segments m"
  by (simp add: account_cost_def Let_def)

lemma store_ok_account_cost: "store_ok m \<Longrightarrow> store_ok (snd (account_cost v m))"
  by (simp add: store_ok_def account_cost_segments)

lemma store_ok_garbageCollect: "store_ok m \<Longrightarrow> store_ok (snd (garbageCollect m))"
  by (simp add: garbageCollect_def store_ok_account_cost store_ok_compact split: option.splits)

lemma write_into_eq:
  "write_into t r m =
     (written t (span (offset r) (size_w r)) (invalidated t (span (offset r) (size_w r)) m))
       \<lparr>totalWrites := totalWrites m + 1\<rparr>"
  by (simp add: write_into_def Let_def invalidateOldData_eq writeToSegment_eq
      written_def invalidated_def seg_update_def)

lemma store_ok_totalWrites [simp]: "store_ok (m\<lparr>totalWrites := x\<rparr>) = store_ok m"
  by (simp add: store_ok_def)

lemma store_ok_write_into: "store_ok m \<Longrightarrow> store_ok (write_into t r m)"
  by (simp add: write_into_eq store_ok_written store_ok_invalidated span_subset)

lemma store_ok_processWriteRequest: "store_ok m \<Longrightarrow> store_ok (snd (processWriteRequest m r))"
  by (simp add: processWriteRequest_def Let_def store_ok_write_into store_ok_garbageCollect
      split: option.splits)

lemma init_loop_eq:
  "for_int 0 n init_segment m =
     m\<lparr>segments := (\<lambda>i. if i < n then init_fields i (segments m i) else segments m i)\<rparr>"
proof (induction n)
  case 0
  show ?case by (simp add: for_int_done)
next
  case (Suc n)
  have "(\<lambda>i. if i < n then init_fields i (segments m i) else segments m i)
          (n := init_fields n (segments m n))
        = (\<lambda>i. if i < Suc n then init_fields i (segments m i) else segments m i)"
    by (auto simp: fun_eq_iff less_Suc_eq)
  then show ?case using Suc
    by (simp add: for_int_Suc_end init_segment_def seg_update_def init_fields_def [symmetric])
qed

lemma initSegmentManager_eq:
  "initSegmentManager m =
     \<lparr>segments = (\<lambda>i. if i < NUM_SEGMENTS then init_fields i (segments m i) else segments m i),
      totalWrites = 0, totalInvalidated = 0, gcCount = 0, totalGcCost = 0\<rparr>"
  by (cases m) (simp add: initSegmentManager_def init_loop_eq cong: if_cong)

lemma written_proj:
  "segments (written t R m) i = (if i = t then
      (segments m t)\<lparr>data := (\<lambda>p. if p \<in> R then 1 else data (segments m t) p),
                      valid := (\<lambda>p. valid (segments m t) p \<or> p \<in> R),
                      utilization := utilization (segments m t) + of_nat (card {p \<in> R. \<not> valid (segments m t) p})\<rparr>
      else segments m i)"
  "totalWrites (written t R m) = totalWrites m"
  "totalInvalidated (written t R m) = totalInvalidated m"
  "gcCount (written t R m) = gcCount m"
  "totalGcCost (written t R m) = totalGcCost m"
  by (simp_all add: written_def seg_update_def)

lemma invalidated_proj:
  "segments (invalidated t R m) i = (if i = t then
      (segments m t)\<lparr>valid := (\<lambda>p. valid (segments m t) p \<and> p \<notin> R),
                      utilization := utilization (segments m t) - of_nat (card {p \<in> R. valid (segments m t) p}),
                      invalidatedBytes := invalidatedBytes (segments m t) + of_nat (card {p \<in> R. valid (segments m t) p})\<rparr>
      else segments m i)"
  "totalWrites (invalidated t R m) = totalWrites m"
  "totalInvalidated (invalidated t R m) = totalInvalidated m + of_nat (card {p \<in> R. valid (segments m t) p})"
  "gcCount (invalidated t R m) = gcCount m"
  "totalGcCost (invalidated t R m) = totalGcCost m"
  by (simp_all add: invalidated_def seg_update_def)

text \<open>effect of an accepted write on the target segment\<close>

lemma card_span_split:
  "card {p \<in> span off sz. valid s p} + card {p \<in> span off sz. \<not> valid s p} = card (span off sz)"
proof -
  have "{p \<in> span off sz. valid s p} \<union> {p \<in> span off sz. \<not> valid s p} = span off sz" by auto
  moreover have "{p \<in> span off sz. valid s p} \<inter> {p \<in> span off sz. \<not> valid s p} = {}" by auto
  ultimately show ?thesis
    using card_Un_disjoint [of "{p \<in> span off sz. valid s p}" "{p \<in> span off sz. \<not> valid s p}"]
    by (simp add: finite_span)
qed

lemma write_into_target:
  fixes r t m
  defines "R \<equiv> span (offset r) (size_w r)"
  defines "s \<equiv> segments m t"
  shows "valid (segments (write_into t r m) t) = (\<lambda>p. valid s p \<or> p \<in> R)"
    and "utilization (segments (write_into t r m) t) = utilization s + of_nat (card {p \<in> R. \<not> valid s p})"
    and "invalidatedBytes (segments (write_into t r m) t) = invalidatedBytes s + of_nat (card {p \<in> R. valid s p})"
    and "data (segments (write_into t r m) t) = (\<lambda>p. if p \<in> R then 1 else data s p)"
    and "segmentId (segments (write_into t r m) t) = segmentId s"
proof -
  have a: "{p \<in> R. \<not> (valid s p \<and> p \<notin> R)} = R" by auto
  have "card R = card {p \<in> R. valid s p} + card {p \<in> R. \<not> valid s p}"
    unfolding R_def by (rule card_span_split [symmetric])
  then have "of_nat (card R) = (of_nat (card {p \<in> R. valid s p} + card {p \<in> R. \<not> valid s p}) :: u64)"
    by (rule arg_cong)
  then have "of_nat (card R) = (of_nat (card {p \<in> R. valid s p}) :: u64) + of_nat (card {p \<in> R. \<not> valid s p})"
    by (simp only: of_nat_add)
  then have b: "utilization s - of_nat (card {p \<in> R. valid s p}) + of_nat (card R)
        = utilization s + of_nat (card {p \<in> R. \<not> valid s p})"
    by simp
  have c: "(\<lambda>p. valid s p \<and> p \<notin> R \<or> p \<in> R) = (\<lambda>p. valid s p \<or> p \<in> R)"
    by (auto simp: fun_eq_iff)
  have u: "utilization (segments (write_into t r m) t)
        = utilization s - of_nat (card {p \<in> R. valid s p}) + of_nat (card {p \<in> R. \<not> (valid s p \<and> p \<notin> R)})"
    by (simp add: write_into_eq written_proj invalidated_proj R_def s_def)
  show "utilization (segments (write_into t r m) t) = utilization s + of_nat (card {p \<in> R. \<not> valid s p})"
    unfolding u a by (rule b)
  have "valid (segments (write_into t r m) t) = (\<lambda>p. valid s p \<and> p \<notin> R \<or> p \<in> R)"
    by (simp add: write_into_eq written_proj invalidated_proj R_def s_def)
  then show "valid (segments (write_into t r m) t) = (\<lambda>p. valid s p \<or> p \<in> R)"
    unfolding c .
  show "invalidatedBytes (segments (write_into t r m) t) = invalidatedBytes s + of_nat (card {p \<in> R. valid s p})"
    by (simp add: write_into_eq written_proj invalidated_proj R_def s_def)
  show "data (segments (write_into t r m) t) = (\<lambda>p. if p \<in> R then 1 else data s p)"
    by (simp add: write_into_eq written_proj invalidated_proj R_def s_def cong: if_cong)
  show "segmentId (segments (write_into t r m) t) = segmentId s"
    by (simp add: write_into_eq written_proj invalidated_proj R_def s_def)
qed

lemma write_into_frame:
  "i \<noteq> t \<Longrightarrow> segments (write_into t r m) i = segments m i"
  "totalWrites (write_into t r m) = totalWrites m + 1"
  "totalInvalidated (write_into t r m) = totalInvalidated m + of_nat (card {p \<in> span (offset r) (size_w r). valid (segments m t) p})"
  "gcCount (write_into t r m) = gcCount m"
  "totalGcCost (write_into t r m) = totalGcCost m"
  by (simp_all add: write_into_eq written_proj invalidated_proj)

lemma binade_upper: "0 < x \<Longrightarrow> x < 2 powi n \<Longrightarrow> binade x < n"
proof (induction x arbitrary: n rule: binade.induct)
  case (1 x)
  show ?case
  proof (cases "2 \<le> x")
    case True
    have "x / 2 < 2 powi (n - 1)"
      using 1(4) by (simp add: power_int_diff)
    moreover have "0 < x / 2" using 1(3) by simp
    ultimately have "binade (x / 2) < n - 1"
      using 1(1) [of "n - 1"] 1(3) True by simp
    then show ?thesis using True 1(3) by (subst binade.simps) simp
  next
    case False
    show ?thesis
    proof (cases "x < 1")
      case True
      have "2 * x < 2 powi (n + 1)"
        using 1(4) by (simp add: power_int_add)
      moreover have "0 < 2 * x" using 1(3) by simp
      ultimately have "binade (2 * x) < n + 1"
        using 1(2) [of "n + 1"] 1(3) False True by simp
      then show ?thesis using True False 1(3) by (subst binade.simps) simp
    next
      case ge: False
      have "(1::rat) < 2 powi n" using ge 1(4) by simp
      have "\<not> n \<le> 0"
      proof
        assume "n \<le> 0"
        then have "(2::rat) powi n \<le> 2 powi 0" by (intro power_int_increasing) simp_all
        with \<open>1 < 2 powi n\<close> show False by simp
      qed
      then have "0 < n" by simp
      then show ?thesis using ge False 1(3) by (subst binade.simps) simp
    qed
  qed
qed

lemma binade_lower: "0 < x \<Longrightarrow> 2 powi (binade x) \<le> x"
proof (induction x rule: binade.induct)
  case (1 x)
  show ?case
  proof (cases "2 \<le> x")
    case True
    have b: "binade x = binade (x / 2) + 1" using True 1(3) by (subst binade.simps) simp
    have "2 powi binade (x / 2) \<le> x / 2" using 1(1) 1(3) True by simp
    then show ?thesis unfolding b by (simp add: power_int_add)
  next
    case False
    show ?thesis
    proof (cases "x < 1")
      case True
      have b: "binade x = binade (2 * x) - 1" using True False 1(3) by (subst binade.simps) simp
      have "2 powi binade (2 * x) \<le> 2 * x" using 1(2) 1(3) True False by simp
      then show ?thesis unfolding b by (simp add: power_int_diff)
    next
      case ge: False
      have "binade x = 0" using ge False 1(3) by (subst binade.simps) simp
      then show ?thesis using ge by simp
    qed
  qed
qed

lemma binade_less: "0 < x \<Longrightarrow> x < 2 powi (binade x + 1)"
proof (induction x rule: binade.induct)
  case (1 x)
  show ?case
  proof (cases "2 \<le> x")
    case True
    have b: "binade x = binade (x / 2) + 1" using True 1(3) by (subst binade.simps) simp
    have "x / 2 < 2 powi (binade (x / 2) + 1)" using 1(1) 1(3) True by simp
    then show ?thesis unfolding b by (simp add: power_int_add)
  next
    case False
    show ?thesis
    proof (cases "x < 1")
      case True
      have b: "binade x = binade (2 * x) - 1" using True False 1(3) by (subst binade.simps) simp
      have "2 * x < 2 powi (binade (2 * x) + 1)" using 1(2) 1(3) True False by simp
      then show ?thesis unfolding b by (simp add: power_int_add)
    next
      case ge: False
      have "binade x = 0" using ge False 1(3) by (subst binade.simps) simp
      then show ?thesis using False by simp
    qed
  qed
qed

lemma binade_ge: "2 powi j \<le> x \<Longrightarrow> j \<le> binade x"
proof -
  assume a: "2 powi j \<le> x"
  have "(0::rat) < 2 powi j" by simp
  then have x: "0 < x" using a by (rule less_le_trans)
  then have "x < 2 powi (binade x + 1)" by (rule binade_less)
  with a have lt: "(2::rat) powi j < 2 powi (binade x + 1)" by (rule le_less_trans)
  have "\<not> binade x + 1 \<le> j"
  proof
    assume "binade x + 1 \<le> j"
    then have "(2::rat) powi (binade x + 1) \<le> 2 powi j" by (intro power_int_increasing) simp_all
    with lt show False by simp
  qed
  then show ?thesis by simp
qed

lemma round_even_of_int: "round_even (of_int k) = k"
  by (simp add: round_even_def)

lemma ulp_quotient: "x / ulp x = x * 2 powi (52 - binade x)"
proof -
  have "(2::rat) powi (52 - binade x) = 2 powi (- (binade x - 52))" by simp
  also have "\<dots> = 1 / 2 powi (binade x - 52)" by (rule power_int_minus_divide)
  finally show ?thesis by (simp add: ulp_def)
qed

lemma ulp_times: "2 powi (52 - binade x) * ulp x = 1"
proof -
  have "(2::rat) powi (52 - binade x) * 2 powi (binade x - 52) = 2 powi ((52 - binade x) + (binade x - 52))"
    by (subst power_int_add) simp_all
  then show ?thesis by (simp add: ulp_def)
qed

lemma rnd_exact:
  assumes x: "0 < x" and lt: "x < 2 powi n" and int: "x * 2 powi (53 - n) \<in> \<int>"
  shows "rnd x = x"
proof -
  have b: "binade x < n" using x lt by (rule binade_upper)
  then have nn: "0 \<le> n - 1 - binade x" by simp
  have "(2::rat) powi (52 - binade x) = 2 powi ((53 - n) + (n - 1 - binade x))" by simp
  also have "\<dots> = 2 powi (53 - n) * 2 powi (n - 1 - binade x)"
    by (subst power_int_add) simp_all
  finally have e: "x * 2 powi (52 - binade x) = (x * 2 powi (53 - n)) * 2 powi (n - 1 - binade x)"
    by simp
  have "(2::rat) powi (n - 1 - binade x) = 2 ^ nat (n - 1 - binade x)"
    using nn by (rule power_int_nonneg_exp)
  then have "(2::rat) powi (n - 1 - binade x) \<in> \<int>" by simp
  with int have "x * 2 powi (52 - binade x) \<in> \<int>" unfolding e by (rule Ints_mult)
  then obtain k where k: "x * 2 powi (52 - binade x) = of_int k" by (auto elim: Ints_cases)
  have "rnd x = of_int (round_even (x / ulp x)) * ulp x" using x by (simp add: rnd_def)
  also have "\<dots> = of_int k * ulp x" by (simp add: ulp_quotient k round_even_of_int)
  also have "\<dots> = x * (2 powi (52 - binade x) * ulp x)" by (simp add: k [symmetric])
  also have "\<dots> = x" by (simp add: ulp_times)
  finally show ?thesis .
qed

lemma floor_le_round_even: "\<lfloor>q\<rfloor> \<le> round_even q"
  by (simp add: round_even_def Let_def)

lemma rnd_ge_power:
  assumes a: "2 powi j \<le> x"
  shows "2 powi j \<le> rnd x"
proof -
  have "(0::rat) < 2 powi j" by simp
  then have x: "0 < x" using a by (rule less_le_trans)
  have j: "j \<le> binade x" using a by (rule binade_ge)
  have "2 powi (binade x) \<le> x" using x by (rule binade_lower)
  then have "2 powi (binade x) * 2 powi (52 - binade x) \<le> x * 2 powi (52 - binade x)"
    by (rule mult_right_mono) simp
  moreover have "(2::rat) powi (binade x) * 2 powi (52 - binade x) = 2 powi (binade x + (52 - binade x))"
    by (subst power_int_add) simp_all
  ultimately have "(2::rat) ^ 52 \<le> x / ulp x" by (simp add: ulp_quotient)
  then have "of_int (2 ^ 52) \<le> x / ulp x" by simp
  then have "2 ^ 52 \<le> \<lfloor>x / ulp x\<rfloor>" by (simp only: le_floor_iff)
  then have "2 ^ 52 \<le> round_even (x / ulp x)"
    by (rule order_trans) (rule floor_le_round_even)
  then have "(of_int (2 ^ 52) :: rat) \<le> of_int (round_even (x / ulp x))"
    by (simp only: of_int_le_iff)
  then have "of_int (2 ^ 52) * ulp x \<le> of_int (round_even (x / ulp x)) * ulp x"
    by (rule mult_right_mono) (simp add: ulp_def)
  moreover have "of_int (2 ^ 52) * ulp x = 2 powi (binade x)"
  proof -
    have "(2::rat) powi 52 * 2 powi (binade x - 52) = 2 powi (52 + (binade x - 52))"
      by (subst power_int_add) simp_all
    then show ?thesis by (simp add: ulp_def)
  qed
  ultimately have "2 powi (binade x) \<le> rnd x" using x by (simp add: rnd_def)
  moreover have "(2::rat) powi j \<le> 2 powi (binade x)" using j by (intro power_int_increasing) simp_all
  ultimately show ?thesis by simp
qed

section \<open>The claims\<close>


lemma NUM_SEGMENTS_pos: "0 < NUM_SEGMENTS"
  by (simp add: NUM_SEGMENTS_def)

lemma init_fields_proj:
  "segmentId (init_fields i s) = int i"
  "utilization (init_fields i s) = 0"
  "invalidatedBytes (init_fields i s) = 0"
  "valid (init_fields i s) p = (if p < SEGMENT_SIZE div sizeof_int then False else valid s p)"
  "data (init_fields i s) p = (if p < SEGMENT_SIZE then 0 else data s p)"
  by (simp_all add: init_fields_def memset_valid0_def memset_data_def)

lemma init_proj:
  "segments (initSegmentManager m) i = (if i < NUM_SEGMENTS then init_fields i (segments m i) else segments m i)"
  "totalWrites (initSegmentManager m) = 0"
  "totalInvalidated (initSegmentManager m) = 0"
  "gcCount (initSegmentManager m) = 0"
  "totalGcCost (initSegmentManager m) = 0"
  by (simp_all add: initSegmentManager_eq)

lemma findSegmentForWrite_Some0:
  "fits m sz 0 \<Longrightarrow> findSegmentForWrite m sz = Some 0"
  by (simp add: findSegmentForWrite_def findSegment_from_Some NUM_SEGMENTS_pos)

lemma findSegmentForWrite_Some_iff:
  "findSegmentForWrite m sz = Some j \<longleftrightarrow>
     j < NUM_SEGMENTS \<and> fits m sz j \<and> (\<forall>k<j. \<not> fits m sz k)"
  by (auto simp: findSegmentForWrite_def findSegment_from_Some)

lemma findSegmentForWrite_None_iff:
  "findSegmentForWrite m sz = None \<longleftrightarrow> (\<forall>k<NUM_SEGMENTS. \<not> fits m sz k)"
  by (auto simp: findSegmentForWrite_def findSegment_from_None)

lemma processWriteRequest_Some:
  "findSegmentForWrite m (size_w r) = Some t \<Longrightarrow> processWriteRequest m r = (Accepted, write_into t r m)"
  by (simp add: processWriteRequest_def)

lemma span_0_1: "span 0 1 = {0}"
  by (auto simp: span_def SEGMENT_SIZE_def)

lemma one_byte_store_eq:
  "one_byte_store = write_into 0 \<lparr>offset = 0, size_w = 1\<rparr> (initSegmentManager blank)"
proof -
  have "fits (initSegmentManager blank) 1 0"
    by (simp add: fits_def init_proj init_fields_proj NUM_SEGMENTS_pos SEGMENT_SIZE_def)
  then have "findSegmentForWrite (initSegmentManager blank) 1 = Some 0"
    by (rule findSegmentForWrite_Some0)
  then show ?thesis
    by (simp add: one_byte_store_def processWriteRequest_Some)
qed

lemma one_byte_store_util: "utilization (segments one_byte_store 0) = 1"
proof -
  have "{p. p = 0 \<and> \<not> valid (segments (initSegmentManager blank) 0) p} = {0}"
    by (auto simp: init_proj init_fields_proj NUM_SEGMENTS_pos SEGMENT_SIZE_def sizeof_int_def)
  then show ?thesis
    by (simp add: one_byte_store_eq write_into_target span_0_1 init_proj init_fields_proj NUM_SEGMENTS_pos)
qed

text \<open>
  Claim C9. \<^verbatim>\<open>findSegmentForWrite\<close> scans the pool in ascending index order and returns the
  first segment whose sum \<^verbatim>\<open>utilization + size\<close> is at most \<^verbatim>\<open>SEGMENT_SIZE\<close>, and \<^verbatim>\<open>NULL\<close>
  exactly when no segment has such a sum. The sum is the 64-bit sum of the program: it is
  the exact sum where that is below \<open>2 ^ 64\<close>, and wraps around otherwise.
\<close>

theorem findSegmentForWrite_first_fit:
  "(findSegmentForWrite m sz = Some j \<longleftrightarrow>
      j < NUM_SEGMENTS \<and> unat (utilization (segments m j) + sz) \<le> SEGMENT_SIZE
      \<and> (\<forall>k<j. \<not> unat (utilization (segments m k) + sz) \<le> SEGMENT_SIZE))
   \<and> (findSegmentForWrite m sz = None \<longleftrightarrow>
        (\<forall>k<NUM_SEGMENTS. \<not> unat (utilization (segments m k) + sz) \<le> SEGMENT_SIZE))
   \<and> (unat (utilization (segments m j)) + unat sz < 2 ^ 64 \<longrightarrow>
        unat (utilization (segments m j) + sz) = unat (utilization (segments m j)) + unat sz)"
proof (intro conjI impI)
  show "findSegmentForWrite m sz = Some j \<longleftrightarrow>
      j < NUM_SEGMENTS \<and> unat (utilization (segments m j) + sz) \<le> SEGMENT_SIZE
      \<and> (\<forall>k<j. \<not> unat (utilization (segments m k) + sz) \<le> SEGMENT_SIZE)"
    using findSegmentForWrite_Some_iff [of m sz j] by (simp add: fits_def)
  show "findSegmentForWrite m sz = None \<longleftrightarrow>
        (\<forall>k<NUM_SEGMENTS. \<not> unat (utilization (segments m k) + sz) \<le> SEGMENT_SIZE)"
    using findSegmentForWrite_None_iff [of m sz] by (simp add: fits_def)
  show "unat (utilization (segments m j) + sz) = unat (utilization (segments m j)) + unat sz"
    if "unat (utilization (segments m j)) + unat sz < 2 ^ 64"
    using that by (simp add: unat_add_lem [THEN iffD1])
qed

text \<open>
  After one byte has been written into segment 0, a request of 3 bytes is placed in
  segment 0 and a request of 2000 bytes is not.
\<close>

theorem findSegmentForWrite_first_fit_witness:
  "findSegmentForWrite one_byte_store 3 = Some 0
   \<and> unat (utilization (segments one_byte_store 0) + 3) = 4
   \<and> findSegmentForWrite one_byte_store 2000 \<noteq> Some 0"
proof -
  have u: "unat (utilization (segments one_byte_store 0) + 3) = 4"
    by (simp add: one_byte_store_util)
  have "findSegmentForWrite one_byte_store 3 = Some 0"
    using findSegmentForWrite_first_fit [of one_byte_store 3 0] u
    by (simp add: NUM_SEGMENTS_pos SEGMENT_SIZE_def)
  moreover have "findSegmentForWrite one_byte_store 2000 \<noteq> Some 0"
    using findSegmentForWrite_first_fit [of one_byte_store 2000 0]
    by (simp add: one_byte_store_util SEGMENT_SIZE_def)
  ultimately show ?thesis using u by simp
qed

text \<open>
  With the exact sum the statement fails: segment 0 holds one byte, the request has size
  \<open>2 ^ 64 - 1\<close>, the exact sum exceeds the capacity, and segment 0 is returned.
\<close>

theorem findSegmentForWrite_wraps_counterexample:
  "findSegmentForWrite one_byte_store 18446744073709551615 = Some 0
   \<and> \<not> unat (utilization (segments one_byte_store 0)) + unat (18446744073709551615 :: u64) \<le> SEGMENT_SIZE"
proof -
  have "fits one_byte_store 18446744073709551615 0"
    by (simp add: fits_def one_byte_store_util)
  then have "findSegmentForWrite one_byte_store 18446744073709551615 = Some 0"
    by (rule findSegmentForWrite_Some0)
  then show ?thesis
    by (simp add: one_byte_store_util SEGMENT_SIZE_def)
qed

lemma victim_of_cases:
  "case victim_of m of
     None \<Rightarrow> (\<forall>j<NUM_SEGMENTS. \<not> (0 < invalidatedBytes (segments m j) \<and> 0 < utilization (segments m j)))
   | Some v \<Rightarrow> v < NUM_SEGMENTS \<and> 0 < utilization (segments m v) \<and> 0 < invalidatedBytes (segments m v)
       \<and> (\<forall>j<NUM_SEGMENTS. 0 < utilization (segments m j) \<longrightarrow> invalidatedBytes (segments m j) \<le> invalidatedBytes (segments m v))
       \<and> (\<forall>j<v. 0 < utilization (segments m j) \<longrightarrow> invalidatedBytes (segments m j) < invalidatedBytes (segments m v))"
  using best_upto_final [of m]
  by (simp add: best_upto_def victim_of_def split: option.splits)

lemma first_max_unique: "first_max m v \<Longrightarrow> first_max m w \<Longrightarrow> v = w"
proof (rule ccontr)
  assume a: "first_max m v" and b: "first_max m w" and "v \<noteq> w"
  then consider "v < w" | "w < v" by linarith
  then show False
  proof cases
    case 1
    then have "invalidatedBytes (segments m v) < invalidatedBytes (segments m w)"
      using a b by (simp add: first_max_def)
    moreover have "invalidatedBytes (segments m w) \<le> invalidatedBytes (segments m v)"
      using a b by (simp add: first_max_def)
    ultimately show False by simp
  next
    case 2
    then have "invalidatedBytes (segments m w) < invalidatedBytes (segments m v)"
      using a b by (simp add: first_max_def)
    moreover have "invalidatedBytes (segments m v) \<le> invalidatedBytes (segments m w)"
      using a b by (simp add: first_max_def)
    ultimately show False by simp
  qed
qed

lemma victim_of_Some_iff: "victim_of m = Some v \<longleftrightarrow> first_max m v"
proof
  assume "victim_of m = Some v"
  then show "first_max m v" using victim_of_cases [of m] by (simp add: first_max_def)
next
  assume f: "first_max m v"
  show "victim_of m = Some v"
  proof (cases "victim_of m")
    case None
    then have "\<forall>j<NUM_SEGMENTS. \<not> (0 < invalidatedBytes (segments m j) \<and> 0 < utilization (segments m j))"
      using victim_of_cases [of m] by simp
    with f show ?thesis by (auto simp: first_max_def)
  next
    case (Some w)
    then have "first_max m w" using victim_of_cases [of m] by (simp add: first_max_def)
    with f have "v = w" by (rule first_max_unique)
    with Some show ?thesis by simp
  qed
qed

lemma victim_of_None_iff:
  "victim_of m = None \<longleftrightarrow>
     (\<forall>j<NUM_SEGMENTS. \<not> (0 < utilization (segments m j) \<and> 0 < invalidatedBytes (segments m j)))"
proof
  assume "victim_of m = None"
  then show "\<forall>j<NUM_SEGMENTS. \<not> (0 < utilization (segments m j) \<and> 0 < invalidatedBytes (segments m j))"
    using victim_of_cases [of m] by auto
next
  assume a: "\<forall>j<NUM_SEGMENTS. \<not> (0 < utilization (segments m j) \<and> 0 < invalidatedBytes (segments m j))"
  show "victim_of m = None"
  proof (cases "victim_of m")
    case None
    then show ?thesis .
  next
    case (Some w)
    then have "first_max m w" by (simp add: victim_of_Some_iff)
    with a show ?thesis by (auto simp: first_max_def)
  qed
qed

lemma compact_segmentId: "segmentId (segments (compact v d m) i) = segmentId (segments m i)"
  by (simp add: compact_eq reset_victim_def copied_def seg_update_def written_def clear_below_def)

lemma account_cost_outcome:
  "\<exists>c. fst (account_cost v m) = VictimReclaimed (segmentId (segments m v)) c"
  by (simp add: account_cost_def Let_def)

lemma garbageCollect_outcome:
  "fst (garbageCollect m) =
     (case victim_of m of None \<Rightarrow> NoVictim
      | Some v \<Rightarrow> (case findSegmentForWrite m 0 of None \<Rightarrow> NoDestination
          | Some d \<Rightarrow> fst (account_cost v (compact v d m))))"
  by (simp add: garbageCollect_def split: option.splits)




lemma processWriteRequest_base:
  "processWriteRequest m r =
     (case findSegmentForWrite (base_of m r) (size_w r) of
        None \<Rightarrow> (AllocationFailure, base_of m r)
      | Some t \<Rightarrow> (Accepted, write_into t r (base_of m r)))"
  by (simp add: processWriteRequest_def base_of_def Let_def split: option.splits)

lemma span_0_5: "span 0 5 = {0..<5}"
  by (auto simp: span_def SEGMENT_SIZE_def)

lemma span_2_3: "span 2 3 = {2..<5}"
  by (auto simp: span_def SEGMENT_SIZE_def)

lemma init_valid_low:
  "i < NUM_SEGMENTS \<Longrightarrow> p < 256 \<Longrightarrow> \<not> valid (segments (initSegmentManager mem) i) p"
  by (simp add: init_proj init_fields_proj SEGMENT_SIZE_def sizeof_int_def)

lemma five_bytes_eq:
  "five_bytes mem = write_into 0 \<lparr>offset = 0, size_w = 5\<rparr> (initSegmentManager mem)"
proof -
  have "fits (initSegmentManager mem) 5 0"
    by (simp add: fits_def init_proj init_fields_proj NUM_SEGMENTS_pos SEGMENT_SIZE_def)
  then have "findSegmentForWrite (initSegmentManager mem) 5 = Some 0"
    by (rule findSegmentForWrite_Some0)
  then show ?thesis
    by (simp add: five_bytes_def processWriteRequest_Some)
qed

lemma five_bytes_cards:
  "card {p \<in> span 0 5. \<not> valid (segments (initSegmentManager mem) 0) p} = 5"
  "card {p \<in> span 0 5. valid (segments (initSegmentManager mem) 0) p} = 0"
proof -
  let ?v = "valid (segments (initSegmentManager mem) 0)"
  have n: "\<not> ?v p" if "p < 5" for p
    using that init_valid_low [of 0 p mem] by (simp add: NUM_SEGMENTS_pos)
  then have "{p \<in> span 0 5. \<not> ?v p} = {0..<5}" by (auto simp: span_0_5)
  then show "card {p \<in> span 0 5. \<not> ?v p} = 5" by simp
  have e: "{p \<in> span 0 5. ?v p} = {}" using n by (auto simp: span_0_5)
  show "card {p \<in> span 0 5. ?v p} = 0" unfolding e by simp
qed

lemma init_seg0:
  "utilization (segments (initSegmentManager mem) 0) = 0"
  "invalidatedBytes (segments (initSegmentManager mem) 0) = 0"
  by (simp_all add: init_proj init_fields_proj NUM_SEGMENTS_pos)

lemma five_bytes_seg0:
  "utilization (segments (five_bytes mem) 0) = 5"
  "invalidatedBytes (segments (five_bytes mem) 0) = 0"
  "p < 5 \<Longrightarrow> valid (segments (five_bytes mem) 0) p"
  "totalInvalidated (five_bytes mem) = 0"
  "totalWrites (five_bytes mem) = 1"
proof -
  show "utilization (segments (five_bytes mem) 0) = 5"
    by (simp add: five_bytes_eq write_into_target five_bytes_cards init_seg0)
  show "invalidatedBytes (segments (five_bytes mem) 0) = 0"
    by (simp add: five_bytes_eq write_into_target five_bytes_cards init_seg0)
  show "valid (segments (five_bytes mem) 0) p" if "p < 5"
    using that by (simp add: five_bytes_eq write_into_target span_0_5)
  show "totalInvalidated (five_bytes mem) = 0"
    by (simp add: five_bytes_eq write_into_frame five_bytes_cards init_proj(2-))
  show "totalWrites (five_bytes mem) = 1"
    by (simp add: five_bytes_eq write_into_frame init_proj(2-))
qed

lemma five_bytes_find: "findSegmentForWrite (five_bytes mem) 3 = Some 0"
proof -
  have "fits (five_bytes mem) 3 0"
    by (simp add: fits_def five_bytes_seg0 SEGMENT_SIZE_def)
  then show ?thesis by (rule findSegmentForWrite_Some0)
qed

lemma overwritten_eq:
  "overwritten mem = write_into 0 \<lparr>offset = 2, size_w = 3\<rparr> (five_bytes mem)"
  by (simp add: overwritten_def processWriteRequest_Some five_bytes_find)

lemma overwritten_cards:
  "card {p \<in> span 2 3. valid (segments (five_bytes mem) 0) p} = 3"
  "card {p \<in> span 2 3. \<not> valid (segments (five_bytes mem) 0) p} = 0"
proof -
  have "{p \<in> span 2 3. valid (segments (five_bytes mem) 0) p} = {2..<5}"
    by (auto simp: five_bytes_seg0 span_2_3)
  then show "card {p \<in> span 2 3. valid (segments (five_bytes mem) 0) p} = 3" by simp
  have e: "{p \<in> span 2 3. \<not> valid (segments (five_bytes mem) 0) p} = {}"
    by (auto simp: five_bytes_seg0 span_2_3)
  show "card {p \<in> span 2 3. \<not> valid (segments (five_bytes mem) 0) p} = 0" unfolding e by simp
qed

lemma overwritten_seg0:
  "utilization (segments (overwritten mem) 0) = 5"
  "invalidatedBytes (segments (overwritten mem) 0) = 3"
  "totalInvalidated (overwritten mem) = 3"
  "totalWrites (overwritten mem) = 2"
  by (simp_all add: overwritten_eq write_into_target write_into_frame overwritten_cards five_bytes_seg0)

text \<open>
  Claim C5. On a manager that has just been initialised, whatever the memory held before,
  the request (offset 0, size 5) and then the request (offset 2, size 3) both go to
  segment 0 and leave it with utilization 5 and 3 invalidated bytes, with
  \<^verbatim>\<open>totalInvalidated = 3\<close> and \<^verbatim>\<open>totalWrites = 2\<close>. In general, a request written into segment
  \<open>t\<close> adds to \<^verbatim>\<open>invalidatedBytes\<close> of \<open>t\<close> and to \<^verbatim>\<open>totalInvalidated\<close> the number of
  positions of its range that were valid, and to the utilization of \<open>t\<close> the number of
  those that were not: when all of them were valid the utilization is unchanged.
  \<open>base_of m r\<close> is the manager the request is written into: \<open>m\<close>, or what the forced
  collection left of it; \<open>span\<close> is the range of positions the loops reach.
\<close>

theorem overwrite_counts_invalidated_bytes:
  "processWriteRequest (initSegmentManager mem) \<lparr>offset = 0, size_w = 5\<rparr>
     = (Accepted, five_bytes mem)
   \<and> five_bytes mem = write_into 0 \<lparr>offset = 0, size_w = 5\<rparr> (initSegmentManager mem)
   \<and> processWriteRequest (five_bytes mem) \<lparr>offset = 2, size_w = 3\<rparr>
     = (Accepted, overwritten mem)
   \<and> overwritten mem = write_into 0 \<lparr>offset = 2, size_w = 3\<rparr> (five_bytes mem)
   \<and> utilization (segments (overwritten mem) 0) = 5
   \<and> invalidatedBytes (segments (overwritten mem) 0) = 3
   \<and> totalInvalidated (overwritten mem) = 3
   \<and> totalWrites (overwritten mem) = 2
   \<and> (findSegmentForWrite (base_of m r) (size_w r) = Some t \<longrightarrow>
        processWriteRequest m r = (Accepted, write_into t r (base_of m r))
        \<and> invalidatedBytes (segments (write_into t r (base_of m r)) t)
            = invalidatedBytes (segments (base_of m r) t)
              + of_nat (card {p \<in> span (offset r) (size_w r). valid (segments (base_of m r) t) p})
        \<and> totalInvalidated (write_into t r (base_of m r))
            = totalInvalidated (base_of m r)
              + of_nat (card {p \<in> span (offset r) (size_w r). valid (segments (base_of m r) t) p})
        \<and> utilization (segments (write_into t r (base_of m r)) t)
            = utilization (segments (base_of m r) t)
              + of_nat (card {p \<in> span (offset r) (size_w r). \<not> valid (segments (base_of m r) t) p})
        \<and> ((\<forall>p \<in> span (offset r) (size_w r). valid (segments (base_of m r) t) p) \<longrightarrow>
              utilization (segments (write_into t r (base_of m r)) t)
              = utilization (segments (base_of m r) t)))"
proof (intro conjI impI)
  have "findSegmentForWrite (initSegmentManager mem) 5 = Some 0"
    by (rule findSegmentForWrite_Some0)
       (simp add: fits_def init_proj init_fields_proj NUM_SEGMENTS_pos SEGMENT_SIZE_def)
  then show "processWriteRequest (initSegmentManager mem) \<lparr>offset = 0, size_w = 5\<rparr>
      = (Accepted, five_bytes mem)"
    by (simp add: processWriteRequest_Some five_bytes_eq)
  show "five_bytes mem = write_into 0 \<lparr>offset = 0, size_w = 5\<rparr> (initSegmentManager mem)"
    by (rule five_bytes_eq)
  show "processWriteRequest (five_bytes mem) \<lparr>offset = 2, size_w = 3\<rparr> = (Accepted, overwritten mem)"
    by (simp add: processWriteRequest_Some five_bytes_find overwritten_eq)
  show "overwritten mem = write_into 0 \<lparr>offset = 2, size_w = 3\<rparr> (five_bytes mem)"
    by (rule overwritten_eq)
  show "utilization (segments (overwritten mem) 0) = 5" by (rule overwritten_seg0)
  show "invalidatedBytes (segments (overwritten mem) 0) = 3" by (rule overwritten_seg0)
  show "totalInvalidated (overwritten mem) = 3" by (rule overwritten_seg0)
  show "totalWrites (overwritten mem) = 2" by (rule overwritten_seg0)
next
  assume f: "findSegmentForWrite (base_of m r) (size_w r) = Some t"
  let ?b = "base_of m r"
  let ?R = "span (offset r) (size_w r)"
  show "processWriteRequest m r = (Accepted, write_into t r ?b)"
    using f by (simp add: processWriteRequest_base)
  show "invalidatedBytes (segments (write_into t r ?b) t)
        = invalidatedBytes (segments ?b t) + of_nat (card {p \<in> ?R. valid (segments ?b t) p})"
    by (rule write_into_target)
  show "totalInvalidated (write_into t r ?b)
        = totalInvalidated ?b + of_nat (card {p \<in> ?R. valid (segments ?b t) p})"
    by (rule write_into_frame)
  show u: "utilization (segments (write_into t r ?b) t)
        = utilization (segments ?b t) + of_nat (card {p \<in> ?R. \<not> valid (segments ?b t) p})"
    by (rule write_into_target)
  show "utilization (segments (write_into t r ?b) t) = utilization (segments ?b t)"
    if "\<forall>p \<in> ?R. valid (segments ?b t) p"
  proof -
    have e: "{p \<in> ?R. \<not> valid (segments ?b t) p} = {}" using that by auto
    show ?thesis unfolding u e by simp
  qed
qed

text \<open>
  The second request of the scenario, as an instance of the general statement.
\<close>

theorem overwrite_counts_invalidated_bytes_witness:
  "findSegmentForWrite (base_of (five_bytes blank) \<lparr>offset = 2, size_w = 3\<rparr>) 3 = Some 0
   \<and> processWriteRequest (five_bytes blank) \<lparr>offset = 2, size_w = 3\<rparr>
        = (Accepted, write_into 0 \<lparr>offset = 2, size_w = 3\<rparr> (five_bytes blank))
   \<and> invalidatedBytes (segments (write_into 0 \<lparr>offset = 2, size_w = 3\<rparr> (five_bytes blank)) 0) = 3
   \<and> utilization (segments (write_into 0 \<lparr>offset = 2, size_w = 3\<rparr> (five_bytes blank)) 0) = 5"
proof -
  let ?r = "\<lparr>offset = 2, size_w = 3\<rparr>"
  let ?b = "base_of (five_bytes blank) ?r"
  have b: "?b = five_bytes blank"
    by (simp add: base_of_def five_bytes_find)
  have f: "findSegmentForWrite ?b (size_w ?r) = Some 0"
    by (simp add: b five_bytes_find)
  have all: "\<forall>p \<in> span (offset ?r) (size_w ?r). valid (segments ?b 0) p"
    by (simp add: b span_2_3 five_bytes_seg0)
  from overwrite_counts_invalidated_bytes [of blank "five_bytes blank" ?r 0] f all
  have "processWriteRequest (five_bytes blank) ?r = (Accepted, write_into 0 ?r ?b)
      \<and> invalidatedBytes (segments (write_into 0 ?r ?b) 0)
          = invalidatedBytes (segments ?b 0)
            + of_nat (card {p \<in> span (offset ?r) (size_w ?r). valid (segments ?b 0) p})
      \<and> utilization (segments (write_into 0 ?r ?b) 0) = utilization (segments ?b 0)"
    by blast
  then show ?thesis
    using f by (simp add: b overwritten_cards five_bytes_seg0)
qed

lemma account_cost_proj:
  "segments (snd (account_cost v m)) = segments m"
  "totalWrites (snd (account_cost v m)) = totalWrites m"
  "totalInvalidated (snd (account_cost v m)) = totalInvalidated m"
  "gcCount (snd (account_cost v m)) = gcCount m + 1"
  by (simp_all add: account_cost_def Let_def)

lemma garbageCollect_NoVictim: "victim_of m = None \<Longrightarrow> garbageCollect m = (NoVictim, m)"
  by (simp add: garbageCollect_def)

lemma garbageCollect_NoDestination:
  "victim_of m = Some v \<Longrightarrow> findSegmentForWrite m 0 = None \<Longrightarrow> garbageCollect m = (NoDestination, m)"
  by (simp add: garbageCollect_def)

lemma garbageCollect_reclaim:
  "victim_of m = Some v \<Longrightarrow> findSegmentForWrite m 0 = Some d \<Longrightarrow>
   garbageCollect m = account_cost v (compact v d m)"
  by (simp add: garbageCollect_def)

lemma garbageCollect_counters:
  "totalWrites (snd (garbageCollect m)) = totalWrites m"
  "totalInvalidated (snd (garbageCollect m)) = totalInvalidated m"
  by (simp_all add: garbageCollect_def account_cost_proj compact_counters split: option.splits)

lemma garbageCollect_gcCount:
  "gcCount (snd (garbageCollect m)) =
     (if victim_of m \<noteq> None \<and> findSegmentForWrite m 0 \<noteq> None then gcCount m + 1 else gcCount m)"
  by (simp add: garbageCollect_def account_cost_proj compact_counters split: option.splits)

lemma processWriteRequest_None:
  "findSegmentForWrite m (size_w r) = None \<Longrightarrow>
   processWriteRequest m r =
     (case findSegmentForWrite (snd (garbageCollect m)) (size_w r) of
        None \<Rightarrow> (AllocationFailure, snd (garbageCollect m))
      | Some t \<Rightarrow> (Accepted, write_into t r (snd (garbageCollect m))))"
  by (simp add: processWriteRequest_def Let_def)

lemma processWriteRequest_failure_iff:
  "fst (processWriteRequest m r) = AllocationFailure \<longleftrightarrow>
     findSegmentForWrite m (size_w r) = None
     \<and> findSegmentForWrite (snd (garbageCollect m)) (size_w r) = None"
  by (simp add: processWriteRequest_def Let_def split: option.splits)

text \<open>the store of the counterexample\<close>

lemma overwritten_others:
  "k \<noteq> 0 \<Longrightarrow> k < NUM_SEGMENTS \<Longrightarrow> utilization (segments (overwritten mem) k) = 0"
  by (simp add: overwritten_eq five_bytes_eq write_into_frame init_proj init_fields_proj)

lemma overwritten_gcCount: "gcCount (overwritten mem) = 0"
  by (simp add: overwritten_eq five_bytes_eq write_into_frame init_proj)

lemma overwritten_no_room: "findSegmentForWrite (overwritten mem) 2000 = None"
proof -
  have "\<not> fits (overwritten mem) 2000 k" if "k < NUM_SEGMENTS" for k
    using that
    by (cases "k = 0") (simp_all add: fits_def overwritten_seg0 overwritten_others SEGMENT_SIZE_def)
  then show ?thesis by (simp add: findSegmentForWrite_None_iff)
qed

lemma overwritten_victim: "victim_of (overwritten mem) = Some 0"
proof -
  have "first_max (overwritten mem) 0"
    unfolding first_max_def
  proof (intro conjI allI impI)
    show "0 < NUM_SEGMENTS" by (rule NUM_SEGMENTS_pos)
    show "0 < utilization (segments (overwritten mem) 0)" by (simp add: overwritten_seg0)
    show "0 < invalidatedBytes (segments (overwritten mem) 0)" by (simp add: overwritten_seg0)
    show "invalidatedBytes (segments (overwritten mem) j) \<le> invalidatedBytes (segments (overwritten mem) 0)"
      if "j < NUM_SEGMENTS" "0 < utilization (segments (overwritten mem) j)" for j
      using that by (cases "j = 0") (simp_all add: overwritten_others)
    show "invalidatedBytes (segments (overwritten mem) j) < invalidatedBytes (segments (overwritten mem) 0)"
      if "j < 0" for j
      using that by simp
  qed
  then show ?thesis by (simp add: victim_of_Some_iff)
qed

lemma overwritten_destination: "findSegmentForWrite (overwritten mem) 0 = Some 0"
  by (rule findSegmentForWrite_Some0) (simp add: fits_def overwritten_seg0 SEGMENT_SIZE_def)

lemma overwritten_collect:
  "garbageCollect (overwritten mem) = account_cost 0 (compact 0 0 (overwritten mem))"
  using overwritten_victim overwritten_destination by (rule garbageCollect_reclaim)

lemma compact_utilization:
  "utilization (segments (compact v v m) k) = (if k = v then 0 else utilization (segments m k))"
  by (simp add: compact_eq reset_victim_def copied_def seg_update_def written_def clear_below_def)

lemma compact_victim:
  "utilization (segments (compact v d m) v) = 0"
  "invalidatedBytes (segments (compact v d m) v) = 0"
  "p < SEGMENT_SIZE \<Longrightarrow> \<not> valid (segments (compact v d m) v) p"
  by (simp_all add: compact_eq reset_victim_def copied_def seg_update_def clear_below_def)

lemma overwritten_collected_no_room:
  "findSegmentForWrite (snd (garbageCollect (overwritten mem))) 2000 = None"
proof -
  have "\<not> fits (snd (garbageCollect (overwritten mem))) 2000 k" if "k < NUM_SEGMENTS" for k
    using that
    by (cases "k = 0")
       (simp_all add: fits_def overwritten_collect account_cost_proj compact_utilization
          overwritten_others SEGMENT_SIZE_def)
  then show ?thesis by (simp add: findSegmentForWrite_None_iff)
qed

lemma count_used_loop:
  "for_int 0 n (count_used m) c = c + int (card {i. i < n \<and> 0 < utilization (segments m i)})"
proof (induction n)
  case 0
  show ?case by (simp add: for_int_done)
next
  case (Suc n)
  have fin: "finite {i. i < n \<and> 0 < utilization (segments m i)}" by simp
  have notin: "n \<notin> {i. i < n \<and> 0 < utilization (segments m i)}" by simp
  show ?case
  proof (cases "0 < utilization (segments m n)")
    case True
    then have "{i. i < Suc n \<and> 0 < utilization (segments m i)}
             = insert n {i. i < n \<and> 0 < utilization (segments m i)}"
      by (auto simp: less_Suc_eq)
    then have "card {i. i < Suc n \<and> 0 < utilization (segments m i)}
             = Suc (card {i. i < n \<and> 0 < utilization (segments m i)})"
      using fin notin by simp
    then show ?thesis using True Suc by (simp add: for_int_Suc_end count_used_def)
  next
    case False
    then have "{i. i < Suc n \<and> 0 < utilization (segments m i)}
             = {i. i < n \<and> 0 < utilization (segments m i)}"
      by (auto simp: less_Suc_eq)
    then show ?thesis using False Suc by (simp add: for_int_Suc_end count_used_def)
  qed
qed

lemma usedSegments_eq: "usedSegments m = int (used_count m)"
  by (simp add: usedSegments_def used_count_def count_used_loop)

lemma used_count_le: "used_count m \<le> NUM_SEGMENTS"
proof -
  have "{i. i < NUM_SEGMENTS \<and> 0 < utilization (segments m i)} \<subseteq> {..<NUM_SEGMENTS}" by auto
  then have "card {i. i < NUM_SEGMENTS \<and> 0 < utilization (segments m i)} \<le> card {..<NUM_SEGMENTS}"
    by (intro card_mono) simp_all
  then show ?thesis by (simp add: used_count_def)
qed

lemma rnd_small_int:
  assumes "0 \<le> k" "k < 2 ^ 53"
  shows "rnd (of_int k) = of_int k"
proof (cases "k = 0")
  case True
  then show ?thesis by (simp add: rnd_def)
next
  case False
  with assms have "0 < (of_int k :: rat)" by simp
  moreover have "(of_int k :: rat) < 2 powi 53"
  proof -
    have "(of_int k :: rat) < of_int (2 ^ 53)" using assms by (simp only: of_int_less_iff)
    then show ?thesis by simp
  qed
  moreover have "(of_int k :: rat) * 2 powi (53 - 53) \<in> \<int>" by simp
  ultimately show ?thesis by (rule rnd_exact)
qed

lemma frac_scale: "j \<le> p \<Longrightarrow> (x / 2 ^ j) * 2 ^ p = x * (2::rat) ^ (p - j)"
  by (simp add: power_diff)

lemma rnd_fraction:
  assumes "0 \<le> k" "k \<le> 2 ^ j" "j \<le> 52"
  shows "rnd (of_int k / 2 ^ j) = of_int k / 2 ^ j"
proof (cases "k = 0")
  case True
  then show ?thesis by (simp add: rnd_def)
next
  case False
  let ?x = "of_int k / 2 ^ j :: rat"
  have k: "0 < (of_int k :: rat)" using assms False by simp
  then have "0 < ?x" by simp
  moreover have "?x < 2 powi 1"
  proof -
    have "(of_int k :: rat) \<le> of_int (2 ^ j)" using assms by (simp only: of_int_le_iff)
    then have "(of_int k :: rat) \<le> 2 ^ j" by simp
    then have "?x \<le> 1" by (simp add: divide_le_eq)
    moreover have "(1::rat) < 2 powi 1" by simp
    ultimately show ?thesis by (rule le_less_trans)
  qed
  moreover have "?x * 2 powi (53 - 1) \<in> \<int>"
  proof -
    have "?x * 2 ^ 52 = of_int k * 2 ^ (52 - j)" using assms(3) by (rule frac_scale)
    then have "?x * 2 ^ 52 = of_int (k * 2 ^ (52 - j))" by simp
    then have "?x * 2 ^ 52 \<in> \<int>" by (simp only: Ints_of_int)
    then show ?thesis by simp
  qed
  ultimately show ?thesis by (rule rnd_exact)
qed

lemma GC_THRESHOLD_value: "GC_THRESHOLD = 8106479329266893 / 9007199254740992"
  by code_simp

lemma threshold_arith:
  fixes k :: int
  shows "(8106479329266893 / 9007199254740992 :: rat) \<le> of_int k / 1024 \<longleftrightarrow> (9 / 10 :: rat) \<le> of_int k / 1024"
proof -
  have a: "(8106479329266893 / 9007199254740992 :: rat) \<le> of_int k / 1024 \<longleftrightarrow> 8106479329266893 \<le> k * 8796093022208"
  proof -
    have "(8106479329266893 / 9007199254740992 :: rat) \<le> of_int k / 1024
      \<longleftrightarrow> (8106479329266893 :: rat) \<le> of_int k * 8796093022208"
      by (simp add: field_simps)
    also have "\<dots> \<longleftrightarrow> (of_int 8106479329266893 :: rat) \<le> of_int (k * 8796093022208)"
      by simp
    also have "\<dots> \<longleftrightarrow> 8106479329266893 \<le> k * 8796093022208"
      by (simp only: of_int_le_iff)
    finally show ?thesis .
  qed
  have b: "(9 / 10 :: rat) \<le> of_int k / 1024 \<longleftrightarrow> 9216 \<le> k * 10"
  proof -
    have "(9 / 10 :: rat) \<le> of_int k / 1024 \<longleftrightarrow> (9216 :: rat) \<le> of_int k * 10"
      by (simp add: field_simps)
    also have "\<dots> \<longleftrightarrow> (of_int 9216 :: rat) \<le> of_int (k * 10)"
      by simp
    also have "\<dots> \<longleftrightarrow> 9216 \<le> k * 10"
      by (simp only: of_int_le_iff)
    finally show ?thesis .
  qed
  have "8106479329266893 \<le> k * 8796093022208 \<longleftrightarrow> 922 \<le> k" by linarith
  moreover have "9216 \<le> k * 10 \<longleftrightarrow> 922 \<le> k" by linarith
  ultimately show ?thesis unfolding a b by simp
qed

text \<open>
  Claim C6. \<^verbatim>\<open>isGarbageCollectionNeeded\<close> holds exactly when the number of segments with
  \<^verbatim>\<open>utilization > 0\<close>, divided by \<^verbatim>\<open>NUM_SEGMENTS\<close>, is at least 9/10 as a rational number.
  The program compares the double quotient with the double nearest to 0.9, which is
  slightly above 9/10; for a count out of 1024 the two comparisons agree.
\<close>

theorem isGarbageCollectionNeeded_iff:
  "isGarbageCollectionNeeded m \<longleftrightarrow>
     (9 / 10 :: rat) \<le> of_nat (card {i. i < NUM_SEGMENTS \<and> 0 < utilization (segments m i)})
                          / of_nat NUM_SEGMENTS"
proof -
  let ?k = "int (used_count m)"
  have k: "0 \<le> ?k" "?k \<le> 1024" using used_count_le [of m] by (simp_all add: NUM_SEGMENTS_def)
  have "d_of_int ?k = of_int ?k"
    unfolding d_of_int_def using k by (intro rnd_small_int) simp_all
  moreover have "d_of_int (int NUM_SEGMENTS) = 1024"
    unfolding d_of_int_def NUM_SEGMENTS_def using rnd_small_int [of 1024] by simp
  moreover have "rnd (of_int ?k / 1024) = of_int ?k / 1024"
    using rnd_fraction [of ?k 10] k by simp
  ultimately have q: "d_div (d_of_int ?k) (d_of_int (int NUM_SEGMENTS)) = of_int ?k / 1024"
    by (simp only: d_div_def)
  have "isGarbageCollectionNeeded m \<longleftrightarrow> (8106479329266893 / 9007199254740992 :: rat) \<le> of_int ?k / 1024"
    by (simp only: isGarbageCollectionNeeded_def usedSegments_eq GC_THRESHOLD_value q)
  also have "\<dots> \<longleftrightarrow> (9 / 10 :: rat) \<le> of_int ?k / 1024" by (rule threshold_arith)
  also have "of_int ?k / 1024 = (of_nat (used_count m) :: rat) / of_nat NUM_SEGMENTS"
    by (simp add: NUM_SEGMENTS_def)
  finally show ?thesis by (simp only: used_count_def)
qed

text \<open>
  With every segment in use a collection is needed; on a manager just initialised it is not.
\<close>

theorem isGarbageCollectionNeeded_iff_witness:
  "isGarbageCollectionNeeded all_used \<and> \<not> isGarbageCollectionNeeded (initSegmentManager blank)"
proof -
  have "{i. i < NUM_SEGMENTS \<and> 0 < utilization (segments all_used i)} = {..<NUM_SEGMENTS}"
    by (auto simp: all_used_def blank_def)
  then have a: "card {i. i < NUM_SEGMENTS \<and> 0 < utilization (segments all_used i)} = NUM_SEGMENTS"
    by simp
  have "{i. i < NUM_SEGMENTS \<and> 0 < utilization (segments (initSegmentManager blank) i)} = {}"
    by (auto simp: init_proj init_fields_proj)
  then have b: "card {i. i < NUM_SEGMENTS \<and> 0 < utilization (segments (initSegmentManager blank) i)} = 0"
    by simp
  have "isGarbageCollectionNeeded all_used"
    using isGarbageCollectionNeeded_iff [of all_used] unfolding a by (simp add: NUM_SEGMENTS_def)
  moreover have "\<not> isGarbageCollectionNeeded (initSegmentManager blank)"
    using isGarbageCollectionNeeded_iff [of "initSegmentManager blank"] unfolding b by simp
  ultimately show ?thesis by simp
qed

lemma pool_size: "NUM_SEGMENTS * SEGMENT_SIZE = 2 ^ 20"
  by (simp add: NUM_SEGMENTS_def SEGMENT_SIZE_def)

lemma d_of_int_pool: "d_of_int (int (NUM_SEGMENTS * SEGMENT_SIZE)) = 2 ^ 20"
  unfolding pool_size d_of_int_def using rnd_small_int [of "2 ^ 20"] by simp

lemma rnd_small_nat: "k < 2 ^ 53 \<Longrightarrow> rnd (of_nat k) = of_nat k"
  using rnd_small_int [of "int k"] by simp

lemma rnd_fraction_nat: "k \<le> 2 ^ j \<Longrightarrow> j \<le> 52 \<Longrightarrow> rnd (of_nat k / 2 ^ j) = of_nat k / 2 ^ j"
proof -
  assume a: "k \<le> 2 ^ j" "j \<le> 52"
  have "int k \<le> int (2 ^ j)" using a(1) by (simp only: of_nat_le_iff)
  then have "int k \<le> 2 ^ j" by simp
  then show ?thesis using rnd_fraction [of "int k" j] a(2) by simp
qed

lemma fillRatio_small:
  assumes "unat (totalWrites m) < 2 ^ 20"
  shows "fillRatio m = of_nat (unat (totalWrites m)) / 2 ^ 20"
proof -
  let ?n = "unat (totalWrites m)"
  have "?n < 2 ^ 53" using assms by simp
  then have "rnd (of_nat ?n) = of_nat ?n" by (rule rnd_small_nat)
  then have a: "d_of_u64 (totalWrites m) = of_nat ?n" by (simp add: d_of_u64_def)
  have "rnd (of_nat ?n / 2 ^ 20) = of_nat ?n / 2 ^ 20"
    using assms by (intro rnd_fraction_nat) simp_all
  then show ?thesis unfolding fillRatio_def a d_of_int_pool d_div_def .
qed

lemma fillRatio_large:
  assumes "2 ^ 20 \<le> unat (totalWrites m)"
  shows "1 \<le> fillRatio m"
proof -
  let ?x = "of_nat (unat (totalWrites m)) :: rat"
  have "(of_nat (2 ^ 20) :: rat) \<le> ?x" using assms by (simp only: of_nat_le_iff)
  then have "(2::rat) powi 20 \<le> ?x" by simp
  then have "(2::rat) powi 20 \<le> rnd ?x" by (rule rnd_ge_power)
  then have "(2::rat) ^ 20 \<le> d_of_u64 (totalWrites m)" by (simp add: d_of_u64_def)
  then have "(2::rat) powi 0 \<le> d_of_u64 (totalWrites m) / 2 ^ 20" by (simp add: le_divide_eq)
  then have "(2::rat) powi 0 \<le> rnd (d_of_u64 (totalWrites m) / 2 ^ 20)" by (rule rnd_ge_power)
  then have "1 \<le> rnd (d_of_u64 (totalWrites m) / 2 ^ 20)" by simp
  then show ?thesis unfolding fillRatio_def d_of_int_pool d_div_def .
qed

lemma fillRatio_less_1_iff:
  "fillRatio m < 1 \<longleftrightarrow> unat (totalWrites m) < NUM_SEGMENTS * SEGMENT_SIZE"
proof (cases "unat (totalWrites m) < 2 ^ 20")
  case True
  then have "(of_nat (unat (totalWrites m)) :: rat) < of_nat (2 ^ 20)" by (simp only: of_nat_less_iff)
  then have "fillRatio m < 1" using True by (simp add: fillRatio_small)
  then show ?thesis using True by (simp add: pool_size)
next
  case False
  then have "1 \<le> fillRatio m" by (intro fillRatio_large) simp
  then show ?thesis using False by (simp add: pool_size)
qed

lemma one_minus_fillRatio:
  assumes "unat (totalWrites m) < 2 ^ 20"
  shows "d_sub 1 (fillRatio m) = 1 - of_nat (unat (totalWrites m)) / 2 ^ 20"
proof -
  let ?n = "unat (totalWrites m)"
  have "(of_nat (2 ^ 20 - ?n) :: rat) = of_nat (2 ^ 20) - of_nat ?n"
    using assms by (intro of_nat_diff) simp
  then have e: "(1::rat) - of_nat ?n / 2 ^ 20 = of_nat (2 ^ 20 - ?n) / 2 ^ 20"
    by (simp add: diff_divide_distrib)
  have r: "rnd (of_nat (2 ^ 20 - ?n) / 2 ^ 20) = of_nat (2 ^ 20 - ?n) / 2 ^ 20"
    by (intro rnd_fraction_nat) simp_all
  show ?thesis unfolding d_sub_def fillRatio_small [OF assms] e by (rule r)
qed

lemma account_cost_finite:
  assumes "fillRatio m < 1"
  shows "account_cost v m =
     (VictimReclaimed (segmentId (segments m v)) (Finite (d_div 2 (d_sub 1 (fillRatio m)))),
      m\<lparr>totalGcCost := d_add (totalGcCost m) (d_div 2 (d_sub 1 (fillRatio m))),
        gcCount := gcCount m + 1\<rparr>)"
  using assms by (simp add: account_cost_def Let_def)

lemma account_cost_infinite:
  assumes "\<not> fillRatio m < 1"
  shows "account_cost v m =
     (VictimReclaimed (segmentId (segments m v)) InfinitySymbol, m\<lparr>gcCount := gcCount m + 1\<rparr>)"
  using assms by (simp add: account_cost_def Let_def)

lemma fillRatio_compact: "fillRatio (compact v d m) = fillRatio m"
  by (simp add: fillRatio_def compact_counters)

text \<open>
  Claim C4. When \<^verbatim>\<open>garbageCollect\<close> frees a victim, \<^verbatim>\<open>gcCount\<close> grows by one. With
  \<open>fillRatio\<close> the double quotient of \<^verbatim>\<open>totalWrites\<close> by \<^verbatim>\<open>NUM_SEGMENTS * SEGMENT_SIZE\<close>, which is
  below 1 exactly when \<^verbatim>\<open>totalWrites\<close> is below that product: if it is below 1 the cost is
  the double \<^verbatim>\<open>2.0 / (1.0 - fillRatio)\<close>, which is the exact quotient rounded once, and
  \<^verbatim>\<open>totalGcCost\<close> becomes the double sum of itself and the cost; otherwise the cost is the
  infinity symbol and \<^verbatim>\<open>totalGcCost\<close> is unchanged.
\<close>

theorem collection_cost:
  assumes "fst (garbageCollect m) = VictimReclaimed sid c"
  shows "gcCount (snd (garbageCollect m)) = gcCount m + 1
   \<and> (fillRatio m < 1 \<longleftrightarrow> unat (totalWrites m) < NUM_SEGMENTS * SEGMENT_SIZE)
   \<and> (fillRatio m < 1 \<longrightarrow>
        c = Finite (d_div 2 (d_sub 1 (fillRatio m)))
        \<and> totalGcCost (snd (garbageCollect m)) = d_add (totalGcCost m) (d_div 2 (d_sub 1 (fillRatio m)))
        \<and> d_div 2 (d_sub 1 (fillRatio m))
            = rnd (2 / (1 - of_nat (unat (totalWrites m)) / of_nat (NUM_SEGMENTS * SEGMENT_SIZE))))
   \<and> (\<not> fillRatio m < 1 \<longrightarrow>
        c = InfinitySymbol \<and> totalGcCost (snd (garbageCollect m)) = totalGcCost m)"
proof -
  obtain v where v: "victim_of m = Some v"
    using assms by (cases "victim_of m") (simp_all add: garbageCollect_outcome)
  obtain d where d: "findSegmentForWrite m 0 = Some d"
    using assms v by (cases "findSegmentForWrite m 0") (simp_all add: garbageCollect_outcome)
  have g: "garbageCollect m = account_cost v (compact v d m)"
    using v d by (rule garbageCollect_reclaim)
  have f: "fillRatio (compact v d m) = fillRatio m" by (rule fillRatio_compact)
  show ?thesis
  proof (intro conjI impI)
    show "gcCount (snd (garbageCollect m)) = gcCount m + 1"
      by (simp add: g account_cost_proj compact_counters)
    show "fillRatio m < 1 \<longleftrightarrow> unat (totalWrites m) < NUM_SEGMENTS * SEGMENT_SIZE"
      by (rule fillRatio_less_1_iff)
  next
    assume lt: "fillRatio m < 1"
    then have lt': "fillRatio (compact v d m) < 1" by (simp add: f)
    show "c = Finite (d_div 2 (d_sub 1 (fillRatio m)))"
      using assms by (simp add: g account_cost_finite [OF lt'] f)
    show "totalGcCost (snd (garbageCollect m)) = d_add (totalGcCost m) (d_div 2 (d_sub 1 (fillRatio m)))"
      by (simp add: g account_cost_finite [OF lt'] f compact_counters)
    have n: "unat (totalWrites m) < 2 ^ 20"
      using lt by (simp add: fillRatio_less_1_iff pool_size)
    show "d_div 2 (d_sub 1 (fillRatio m))
            = rnd (2 / (1 - of_nat (unat (totalWrites m)) / of_nat (NUM_SEGMENTS * SEGMENT_SIZE)))"
      by (simp add: d_div_def one_minus_fillRatio [OF n] pool_size)
  next
    assume ge: "\<not> fillRatio m < 1"
    then have ge': "\<not> fillRatio (compact v d m) < 1" by (simp add: f)
    show "c = InfinitySymbol"
      using assms by (simp add: g account_cost_infinite [OF ge'])
    show "totalGcCost (snd (garbageCollect m)) = totalGcCost m"
      by (simp add: g account_cost_infinite [OF ge'] compact_counters)
  qed
qed

lemma victim_of_segments: "segments m' = segments m \<Longrightarrow> victim_of m' = victim_of m"
proof -
  assume e: "segments m' = segments m"
  have "first_max m' v = first_max m v" for v by (simp add: first_max_def e)
  then have "victim_of m' = Some v \<longleftrightarrow> victim_of m = Some v" for v
    by (simp add: victim_of_Some_iff)
  then show ?thesis by (cases "victim_of m") (auto simp: option.exhaust)
qed

lemma findSegmentForWrite_segments:
  "segments m' = segments m \<Longrightarrow> findSegmentForWrite m' sz = findSegmentForWrite m sz"
proof -
  assume e: "segments m' = segments m"
  have f: "fits m' sz k = fits m sz k" for k by (simp add: fits_def e)
  have "findSegmentForWrite m' sz = Some j \<longleftrightarrow> findSegmentForWrite m sz = Some j" for j
    by (simp add: findSegmentForWrite_Some_iff f)
  then show ?thesis by (cases "findSegmentForWrite m sz") (auto simp: option.exhaust)
qed

lemma overwritten_segmentId: "segmentId (segments (overwritten mem) 0) = 0"
  by (simp add: overwritten_eq five_bytes_eq write_into_target init_proj init_fields_proj NUM_SEGMENTS_pos)

lemma overwritten_totalGcCost: "totalGcCost (overwritten mem) = 0"
  by (simp add: overwritten_eq five_bytes_eq write_into_frame init_proj)

lemma stamped_collect:
  "garbageCollect ((overwritten mem)\<lparr>totalWrites := x\<rparr>)
     = account_cost 0 (compact 0 0 ((overwritten mem)\<lparr>totalWrites := x\<rparr>))"
proof (rule garbageCollect_reclaim)
  show "victim_of ((overwritten mem)\<lparr>totalWrites := x\<rparr>) = Some 0"
    using victim_of_segments [of "(overwritten mem)\<lparr>totalWrites := x\<rparr>" "overwritten mem"]
    by (simp add: overwritten_victim)
  show "findSegmentForWrite ((overwritten mem)\<lparr>totalWrites := x\<rparr>) 0 = Some 0"
    using findSegmentForWrite_segments [of "(overwritten mem)\<lparr>totalWrites := x\<rparr>" "overwritten mem" 0]
    by (simp add: overwritten_destination)
qed

lemma stamped_outcome:
  "\<exists>c. fst (garbageCollect ((overwritten mem)\<lparr>totalWrites := x\<rparr>)) = VictimReclaimed 0 c"
  using account_cost_outcome [of 0 "compact 0 0 ((overwritten mem)\<lparr>totalWrites := x\<rparr>)"]
  by (simp add: stamped_collect compact_segmentId overwritten_segmentId)

lemma rnd_4: "rnd 4 = 4"
  using rnd_small_int [of 4] by simp

text \<open>
  With \<^verbatim>\<open>totalWrites\<close> at half the pool size the cost is 4; with \<^verbatim>\<open>totalWrites\<close> at the pool
  size it is the infinity symbol.
\<close>

theorem collection_cost_witness:
  "fst (garbageCollect half_full) = VictimReclaimed 0 (Finite 4)
   \<and> gcCount (snd (garbageCollect half_full)) = 1
   \<and> totalGcCost (snd (garbageCollect half_full)) = 4
   \<and> fst (garbageCollect over_full) = VictimReclaimed 0 InfinitySymbol
   \<and> gcCount (snd (garbageCollect over_full)) = 1
   \<and> totalGcCost (snd (garbageCollect over_full)) = 0"
proof -
  obtain c where c: "fst (garbageCollect half_full) = VictimReclaimed 0 c"
    using stamped_outcome [where mem = blank and x = 524288] by (auto simp: half_full_def)
  obtain c' where c': "fst (garbageCollect over_full) = VictimReclaimed 0 c'"
    using stamped_outcome [where mem = blank and x = 1048576] by (auto simp: over_full_def)
  have tw: "totalWrites half_full = 524288" "totalWrites over_full = 1048576"
    by (simp_all add: half_full_def over_full_def)
  have f: "fillRatio half_full = 1 / 2"
    using fillRatio_small [of half_full] by (simp add: tw)
  have s: "d_sub 1 (fillRatio half_full) = 1 / 2"
    using one_minus_fillRatio [of half_full] by (simp add: tw)
  have cost: "d_div 2 (d_sub 1 (fillRatio half_full)) = 4"
    unfolding s d_div_def by (simp add: rnd_4)
  have z: "gcCount half_full = 0" "totalGcCost half_full = 0"
          "gcCount over_full = 0" "totalGcCost over_full = 0"
    by (simp_all add: half_full_def over_full_def overwritten_gcCount overwritten_totalGcCost)
  have a: "gcCount (snd (garbageCollect half_full)) = 1
      \<and> c = Finite (d_div 2 (d_sub 1 (fillRatio half_full)))
      \<and> totalGcCost (snd (garbageCollect half_full))
          = d_add (totalGcCost half_full) (d_div 2 (d_sub 1 (fillRatio half_full)))"
    using collection_cost [OF c] by (simp add: tw z NUM_SEGMENTS_def SEGMENT_SIZE_def)
  have b: "gcCount (snd (garbageCollect over_full)) = 1
      \<and> c' = InfinitySymbol
      \<and> totalGcCost (snd (garbageCollect over_full)) = totalGcCost over_full"
    using collection_cost [OF c'] by (simp add: tw z NUM_SEGMENTS_def SEGMENT_SIZE_def)
  show ?thesis
    using a b c c' by (simp add: cost z d_add_def rnd_4)
qed

lemma rnd_cost_2: "rnd (1048576 / 524287) = 274878431233 / 137438953472"
  by code_simp

lemma rnd_cost_2': "rnd (274878431233 / 137438953472) = 274878431233 / 137438953472"
  by code_simp

lemma overwritten_collected_cost:
  "totalGcCost (snd (garbageCollect (overwritten mem))) = 274878431233 / 137438953472"
proof -
  let ?m = "compact 0 0 (overwritten mem)"
  have tw: "totalWrites ?m = 2" by (simp add: compact_counters overwritten_seg0)
  have lt: "unat (totalWrites ?m) < 2 ^ 20" by (simp add: tw)
  have f: "fillRatio ?m < 1" using lt by (simp add: fillRatio_less_1_iff pool_size)
  have s: "d_sub 1 (fillRatio ?m) = 524287 / 524288"
    using one_minus_fillRatio [OF lt] by (simp add: tw)
  have c: "d_div 2 (d_sub 1 (fillRatio ?m)) = 274878431233 / 137438953472"
    unfolding s d_div_def by (simp add: rnd_cost_2)
  have z: "totalGcCost ?m = 0" by (simp add: compact_counters overwritten_totalGcCost)
  show ?thesis
    unfolding overwritten_collect account_cost_finite [OF f] c
    by (simp add: z d_add_def rnd_cost_2')
qed

lemma garbageCollect_totalGcCost:
  "totalGcCost (snd (garbageCollect m)) =
     (if victim_of m \<noteq> None \<and> findSegmentForWrite m 0 \<noteq> None \<and> fillRatio m < 1
      then d_add (totalGcCost m) (d_div 2 (d_sub 1 (fillRatio m))) else totalGcCost m)"
proof (cases "victim_of m")
  case None
  then show ?thesis by (simp add: garbageCollect_NoVictim)
next
  case v: (Some v)
  show ?thesis
  proof (cases "findSegmentForWrite m 0")
    case None
    with v show ?thesis by (simp add: garbageCollect_NoDestination)
  next
    case d: (Some d)
    show ?thesis
    proof (cases "fillRatio m < 1")
      case True
      then have "fillRatio (compact v d m) < 1" by (simp add: fillRatio_compact)
      from account_cost_finite [OF this] v d True show ?thesis
        by (simp add: garbageCollect_reclaim fillRatio_compact compact_counters)
    next
      case False
      then have "\<not> fillRatio (compact v d m) < 1" by (simp add: fillRatio_compact)
      from account_cost_infinite [OF this] v d False show ?thesis
        by (simp add: garbageCollect_reclaim compact_counters)
    qed
  qed
qed

lemma reclaimed_victim_has_room:
  assumes v: "victim_of m = Some v" and d: "findSegmentForWrite m 0 = Some d"
    and sz: "unat sz \<le> SEGMENT_SIZE"
  shows "findSegmentForWrite (snd (garbageCollect m)) sz \<noteq> None"
proof -
  from v have lt: "v < NUM_SEGMENTS" by (simp add: victim_of_Some_iff first_max_def)
  have "utilization (segments (snd (garbageCollect m)) v) = 0"
    using v d by (simp add: garbageCollect_reclaim account_cost_proj compact_victim)
  then have "fits (snd (garbageCollect m)) sz v" using sz by (simp add: fits_def)
  with lt show ?thesis by (auto simp: findSegmentForWrite_None_iff)
qed

lemma in_capacity_failure_unchanged:
  assumes f: "fst (processWriteRequest m r) = AllocationFailure"
    and sz: "unat (size_w r) \<le> SEGMENT_SIZE"
  shows "snd (processWriteRequest m r) = m"
proof -
  from f have n: "findSegmentForWrite m (size_w r) = None"
    and n': "findSegmentForWrite (snd (garbageCollect m)) (size_w r) = None"
    by (simp_all add: processWriteRequest_failure_iff)
  have e: "snd (processWriteRequest m r) = snd (garbageCollect m)"
    using n n' by (simp add: processWriteRequest_None)
  show ?thesis
  proof (cases "victim_of m")
    case None
    then show ?thesis unfolding e by (simp add: garbageCollect_NoVictim)
  next
    case v: (Some v)
    show ?thesis
    proof (cases "findSegmentForWrite m 0")
      case None
      with v show ?thesis unfolding e by (simp add: garbageCollect_NoDestination)
    next
      case (Some d)
      from reclaimed_victim_has_room [OF v Some sz] n' show ?thesis by simp
    qed
  qed
qed

text \<open>
  Claim C3. When the first \<^verbatim>\<open>findSegmentForWrite\<close> finds no segment, \<^verbatim>\<open>garbageCollect\<close> runs
  once and the allocation is tried once more, on what the collection left. The request
  fails exactly when both allocations find nothing, and it is then dropped. A failing
  request of at most \<^verbatim>\<open>SEGMENT_SIZE\<close> bytes changes nothing: the manager, and with it
  \<^verbatim>\<open>totalWrites\<close>, \<^verbatim>\<open>totalInvalidated\<close>, \<^verbatim>\<open>gcCount\<close> and \<^verbatim>\<open>totalGcCost\<close>, is as it was
  before the request, since a collection that frees a victim leaves room for such a
  request. For a failing request of any size the manager is the one the collection left:
  \<^verbatim>\<open>totalWrites\<close> and \<^verbatim>\<open>totalInvalidated\<close> are unchanged, \<^verbatim>\<open>gcCount\<close> has grown by one
  exactly when the collection had a victim and a destination, \<^verbatim>\<open>totalGcCost\<close> has grown by
  the cost of that collection where the cost is finite, and where the collection had no
  victim or no destination the whole manager is unchanged.
\<close>

theorem allocation_failure_after_one_collection:
  "(findSegmentForWrite m (size_w r) = None \<longrightarrow>
      processWriteRequest m r =
        (case findSegmentForWrite (snd (garbageCollect m)) (size_w r) of
           None \<Rightarrow> (AllocationFailure, snd (garbageCollect m))
         | Some t \<Rightarrow> (Accepted, write_into t r (snd (garbageCollect m)))))
   \<and> (fst (processWriteRequest m r) = AllocationFailure \<longleftrightarrow>
        findSegmentForWrite m (size_w r) = None
        \<and> findSegmentForWrite (snd (garbageCollect m)) (size_w r) = None)
   \<and> (fst (processWriteRequest m r) = AllocationFailure \<and> unat (size_w r) \<le> SEGMENT_SIZE \<longrightarrow>
        snd (processWriteRequest m r) = m
        \<and> totalWrites (snd (processWriteRequest m r)) = totalWrites m
        \<and> totalInvalidated (snd (processWriteRequest m r)) = totalInvalidated m
        \<and> gcCount (snd (processWriteRequest m r)) = gcCount m
        \<and> totalGcCost (snd (processWriteRequest m r)) = totalGcCost m)
   \<and> (fst (processWriteRequest m r) = AllocationFailure \<longrightarrow>
        snd (processWriteRequest m r) = snd (garbageCollect m)
        \<and> totalWrites (snd (processWriteRequest m r)) = totalWrites m
        \<and> totalInvalidated (snd (processWriteRequest m r)) = totalInvalidated m
        \<and> gcCount (snd (processWriteRequest m r)) =
            (if victim_of m \<noteq> None \<and> findSegmentForWrite m 0 \<noteq> None
             then gcCount m + 1 else gcCount m)
        \<and> totalGcCost (snd (processWriteRequest m r)) =
            (if victim_of m \<noteq> None \<and> findSegmentForWrite m 0 \<noteq> None \<and> fillRatio m < 1
             then d_add (totalGcCost m) (d_div 2 (d_sub 1 (fillRatio m))) else totalGcCost m)
        \<and> (victim_of m = None \<or> findSegmentForWrite m 0 = None \<longrightarrow>
              snd (processWriteRequest m r) = m))"
proof (intro conjI impI)
  show "processWriteRequest m r =
        (case findSegmentForWrite (snd (garbageCollect m)) (size_w r) of
           None \<Rightarrow> (AllocationFailure, snd (garbageCollect m))
         | Some t \<Rightarrow> (Accepted, write_into t r (snd (garbageCollect m))))"
    if "findSegmentForWrite m (size_w r) = None"
    using that by (rule processWriteRequest_None)
  show "fst (processWriteRequest m r) = AllocationFailure \<longleftrightarrow>
        findSegmentForWrite m (size_w r) = None
        \<and> findSegmentForWrite (snd (garbageCollect m)) (size_w r) = None"
    by (rule processWriteRequest_failure_iff)
next
  assume a: "fst (processWriteRequest m r) = AllocationFailure \<and> unat (size_w r) \<le> SEGMENT_SIZE"
  then show u: "snd (processWriteRequest m r) = m"
    by (simp add: in_capacity_failure_unchanged)
  show "totalWrites (snd (processWriteRequest m r)) = totalWrites m" unfolding u ..
  show "totalInvalidated (snd (processWriteRequest m r)) = totalInvalidated m" unfolding u ..
  show "gcCount (snd (processWriteRequest m r)) = gcCount m" unfolding u ..
  show "totalGcCost (snd (processWriteRequest m r)) = totalGcCost m" unfolding u ..
next
  assume f: "fst (processWriteRequest m r) = AllocationFailure"
  then have n: "findSegmentForWrite m (size_w r) = None"
    and n': "findSegmentForWrite (snd (garbageCollect m)) (size_w r) = None"
    by (simp_all add: processWriteRequest_failure_iff)
  show e: "snd (processWriteRequest m r) = snd (garbageCollect m)"
    using n n' by (simp add: processWriteRequest_None)
  show "totalWrites (snd (processWriteRequest m r)) = totalWrites m"
    unfolding e by (rule garbageCollect_counters)
  show "totalInvalidated (snd (processWriteRequest m r)) = totalInvalidated m"
    unfolding e by (rule garbageCollect_counters)
  show "gcCount (snd (processWriteRequest m r)) =
            (if victim_of m \<noteq> None \<and> findSegmentForWrite m 0 \<noteq> None
             then gcCount m + 1 else gcCount m)"
    unfolding e by (rule garbageCollect_gcCount)
  show "totalGcCost (snd (processWriteRequest m r)) =
            (if victim_of m \<noteq> None \<and> findSegmentForWrite m 0 \<noteq> None \<and> fillRatio m < 1
             then d_add (totalGcCost m) (d_div 2 (d_sub 1 (fillRatio m))) else totalGcCost m)"
    unfolding e by (rule garbageCollect_totalGcCost)
  show "snd (processWriteRequest m r) = m"
    if "victim_of m = None \<or> findSegmentForWrite m 0 = None"
    unfolding e using that by (auto simp: garbageCollect_def split: option.splits)
qed

lemma all_full_proj:
  "utilization (segments all_full k) = 1024"
  "invalidatedBytes (segments all_full k) = 0"
  by (simp_all add: all_full_def)

lemma all_full_no_room: "findSegmentForWrite all_full 1 = None"
  by (simp add: findSegmentForWrite_None_iff fits_def all_full_proj SEGMENT_SIZE_def)

lemma all_full_no_victim: "victim_of all_full = None"
  by (simp add: victim_of_None_iff all_full_proj)

text \<open>
  After the two requests of the scenario a request of 2000 bytes fails, and the two write
  counters keep their values 2 and 3. In a pool whose segments are all full a request of
  one byte fails and leaves the manager as it was.
\<close>

theorem allocation_failure_after_one_collection_witness:
  "fst (processWriteRequest (overwritten blank) \<lparr>offset = 0, size_w = 2000\<rparr>) = AllocationFailure
   \<and> totalWrites (snd (processWriteRequest (overwritten blank) \<lparr>offset = 0, size_w = 2000\<rparr>)) = 2
   \<and> totalInvalidated (snd (processWriteRequest (overwritten blank) \<lparr>offset = 0, size_w = 2000\<rparr>)) = 3
   \<and> fst (processWriteRequest all_full \<lparr>offset = 0, size_w = 1\<rparr>) = AllocationFailure
   \<and> snd (processWriteRequest all_full \<lparr>offset = 0, size_w = 1\<rparr>) = all_full"
proof -
  let ?r = "\<lparr>offset = 0, size_w = 2000\<rparr>"
  let ?q = "\<lparr>offset = 0, size_w = 1\<rparr>"
  have n: "findSegmentForWrite (overwritten blank) (size_w ?r) = None"
    by (simp add: overwritten_no_room)
  have n': "findSegmentForWrite (snd (garbageCollect (overwritten blank))) (size_w ?r) = None"
    by (simp add: overwritten_collected_no_room)
  from allocation_failure_after_one_collection [of "overwritten blank" ?r] n n'
  have a: "fst (processWriteRequest (overwritten blank) ?r) = AllocationFailure
      \<and> totalWrites (snd (processWriteRequest (overwritten blank) ?r)) = totalWrites (overwritten blank)
      \<and> totalInvalidated (snd (processWriteRequest (overwritten blank) ?r)) = totalInvalidated (overwritten blank)"
    by blast
  have k: "findSegmentForWrite all_full (size_w ?q) = None"
    by (simp add: all_full_no_room)
  have k': "findSegmentForWrite (snd (garbageCollect all_full)) (size_w ?q) = None"
    by (simp add: all_full_no_victim garbageCollect_NoVictim all_full_no_room)
  have s: "unat (size_w ?q) \<le> SEGMENT_SIZE" by (simp add: SEGMENT_SIZE_def)
  from allocation_failure_after_one_collection [of all_full ?q] k k' s
  have b: "fst (processWriteRequest all_full ?q) = AllocationFailure
      \<and> snd (processWriteRequest all_full ?q) = all_full"
    by blast
  from a b show ?thesis by (simp add: overwritten_seg0)
qed

text \<open>
  The same failing request changes \<^verbatim>\<open>gcCount\<close> and \<^verbatim>\<open>totalGcCost\<close>: the forced collection
  reclaims segment 0 before the second allocation fails.
\<close>

theorem allocation_failure_counts_collection_counterexample:
  "fst (processWriteRequest (overwritten blank) \<lparr>offset = 0, size_w = 2000\<rparr>) = AllocationFailure
   \<and> gcCount (overwritten blank) = 0
   \<and> gcCount (snd (processWriteRequest (overwritten blank) \<lparr>offset = 0, size_w = 2000\<rparr>)) = 1
   \<and> totalGcCost (overwritten blank) = 0
   \<and> totalGcCost (snd (processWriteRequest (overwritten blank) \<lparr>offset = 0, size_w = 2000\<rparr>))
        = 274878431233 / 137438953472"
proof -
  let ?r = "\<lparr>offset = 0, size_w = 2000\<rparr>"
  have p: "processWriteRequest (overwritten blank) ?r
        = (AllocationFailure, snd (garbageCollect (overwritten blank)))"
    by (simp add: processWriteRequest_None overwritten_no_room overwritten_collected_no_room)
  have g: "gcCount (snd (garbageCollect (overwritten blank))) = 1"
    by (simp add: overwritten_gcCount overwritten_collect account_cost_proj compact_counters)
  show ?thesis
    by (simp add: p g overwritten_gcCount overwritten_totalGcCost overwritten_collected_cost)
qed

lemma seg_bounded_le: "seg_bounded s \<Longrightarrow> unat (utilization s) \<le> SEGMENT_SIZE"
  using valid_count_le [of s] by (simp add: seg_bounded_def)

lemma seg_bounded_grow:
  assumes b: "seg_bounded s" and R: "R \<subseteq> {..<SEGMENT_SIZE}"
    and v: "valid s' = (\<lambda>p. valid s p \<or> p \<in> R)"
    and u: "utilization s' = utilization s + of_nat (card {p \<in> R. \<not> valid s p})"
  shows "seg_bounded s'"
proof -
  let ?V = "{p. p < SEGMENT_SIZE \<and> valid s p}"
  let ?K = "{p \<in> R. \<not> valid s p}"
  have fin: "finite ?V" by simp
  have finK: "finite ?K" using R by (auto intro: finite_subset [of _ "{..<SEGMENT_SIZE}"])
  have new: "{p. p < SEGMENT_SIZE \<and> (valid s p \<or> p \<in> R)} = ?V \<union> ?K" using R by auto
  have disj: "?V \<inter> ?K = {}" by auto
  have c: "card {p. p < SEGMENT_SIZE \<and> (valid s p \<or> p \<in> R)} = card ?V + card ?K"
    unfolding new using fin finK disj by (rule card_Un_disjoint)
  have "?V \<union> ?K \<subseteq> {..<SEGMENT_SIZE}" using R by auto
  then have "card (?V \<union> ?K) \<le> card {..<SEGMENT_SIZE}" by (intro card_mono) simp_all
  then have le: "card ?V + card ?K \<le> SEGMENT_SIZE"
    using card_Un_disjoint [OF fin finK disj] by simp
  have ub: "unat (utilization s) \<le> card ?V" using b by (simp add: seg_bounded_def valid_count_card)
  with le have "unat (utilization s) + card ?K < 2 ^ 64" using SEGMENT_SIZE_small by simp
  then have "unat (utilization s + of_nat (card ?K)) = unat (utilization s) + card ?K"
    by (rule unat_add_of_nat)
  then show ?thesis using ub c by (simp add: seg_bounded_def valid_count_card v u)
qed

lemma store_bounded_write_into:
  assumes "store_bounded m"
  shows "store_bounded (write_into t r m)"
  unfolding store_bounded_def
proof
  fix i assume i: "i \<in> {..<NUM_SEGMENTS}"
  show "seg_bounded (segments (write_into t r m) i)"
  proof (cases "i = t")
    case True
    have "seg_bounded (segments m t)" using assms i True by (simp add: store_bounded_def)
    then show ?thesis unfolding True
      by (rule seg_bounded_grow [OF _ span_subset write_into_target(1) write_into_target(2)])
  next
    case False
    then show ?thesis using assms i by (simp add: write_into_frame store_bounded_def)
  qed
qed

lemma compact_destination:
  assumes "v \<noteq> d"
  shows "valid (segments (compact v d m) d)
           = (\<lambda>p. valid (segments m d) p \<or> p \<in> {p. p < SEGMENT_SIZE \<and> valid (segments m v) p})"
    and "utilization (segments (compact v d m) d)
           = utilization (segments m d)
             + of_nat (card {p \<in> {p. p < SEGMENT_SIZE \<and> valid (segments m v) p}. \<not> valid (segments m d) p})"
  using assms
  by (simp_all add: compact_eq reset_victim_def copied_def seg_update_def written_def)

lemma compact_others:
  "i \<noteq> v \<Longrightarrow> i \<noteq> d \<Longrightarrow> segments (compact v d m) i = segments m i"
  by (simp add: compact_eq reset_victim_def copied_def seg_update_def written_def)

lemma store_bounded_compact:
  assumes "store_bounded m"
  shows "store_bounded (compact v d m)"
  unfolding store_bounded_def
proof
  fix i assume i: "i \<in> {..<NUM_SEGMENTS}"
  show "seg_bounded (segments (compact v d m) i)"
  proof (cases "i = v")
    case True
    then show ?thesis by (simp add: seg_bounded_def compact_victim)
  next
    case False
    show ?thesis
    proof (cases "i = d")
      case True
      have vd: "v \<noteq> d" using False True by simp
      have "seg_bounded (segments m d)" using assms i True by (simp add: store_bounded_def)
      moreover have "{p. p < SEGMENT_SIZE \<and> valid (segments m v) p} \<subseteq> {..<SEGMENT_SIZE}" by auto
      ultimately show ?thesis unfolding True
        by (rule seg_bounded_grow [OF _ _ compact_destination(1) [OF vd] compact_destination(2) [OF vd]])
    next
      case nd: False
      then show ?thesis using False assms i by (simp add: compact_others store_bounded_def)
    qed
  qed
qed

lemma store_bounded_garbageCollect: "store_bounded m \<Longrightarrow> store_bounded (snd (garbageCollect m))"
proof -
  assume b: "store_bounded m"
  have "store_bounded (snd (account_cost v (compact v d m)))" for v d
    using store_bounded_compact [OF b, of v d] by (simp add: store_bounded_def account_cost_proj)
  then show ?thesis using b by (simp add: garbageCollect_def split: option.splits)
qed

lemma store_bounded_processWriteRequest:
  "store_bounded m \<Longrightarrow> store_bounded (snd (processWriteRequest m r))"
  by (simp add: processWriteRequest_def Let_def store_bounded_write_into store_bounded_garbageCollect
      split: option.splits)

lemma store_bounded_init: "store_bounded (initSegmentManager mem)"
  by (simp add: store_bounded_def seg_bounded_def init_proj init_fields_proj)

lemma reachable_bounded: "reachable_from mem m \<Longrightarrow> store_bounded m"
  by (induction rule: reachable_from.induct)
     (simp_all add: store_bounded_init store_bounded_processWriteRequest store_bounded_garbageCollect)

lemma reachable_capacity:
  "reachable_from mem m \<Longrightarrow> i < NUM_SEGMENTS \<Longrightarrow> unat (utilization (segments m i)) \<le> SEGMENT_SIZE"
  using reachable_bounded [of mem m] by (simp add: store_bounded_def seg_bounded_le)

lemma reachable_destination:
  assumes "reachable_from mem m"
  shows "findSegmentForWrite m 0 = Some 0"
proof (rule findSegmentForWrite_Some0)
  have "unat (utilization (segments m 0)) \<le> SEGMENT_SIZE"
    using assms NUM_SEGMENTS_pos by (rule reachable_capacity)
  then show "fits m 0 0" by (simp add: fits_def)
qed

text \<open>
  Claim C10. In every manager reached from \<^verbatim>\<open>initSegmentManager\<close> by write requests and
  collections, whatever the memory held before, the call \<^verbatim>\<open>findSegmentForWrite(manager, 0)\<close>
  returns segment 0, since the utilization of a segment never exceeds \<^verbatim>\<open>SEGMENT_SIZE\<close>. So a
  collection never ends with "no space available for compaction": with a victim \<open>v\<close> it
  copies into segment 0 and resets \<open>v\<close>. When \<open>v\<close> is not segment 0, the positions valid in
  segment 0 afterwards are those valid before and those valid in \<open>v\<close>, and the utilization of
  segment 0 grows by the number of positions that were valid in \<open>v\<close> and not in segment 0
  (a position valid in both is counted once: the copied byte lands on a valid one). When \<open>v\<close>
  is segment 0 itself, the copy is wiped by the reset.
\<close>

theorem compaction_goes_to_segment_0:
  assumes "reachable_from mem m"
  shows "findSegmentForWrite m 0 = Some 0
   \<and> fst (garbageCollect m) \<noteq> NoDestination
   \<and> (victim_of m = Some v \<longrightarrow>
        garbageCollect m = account_cost v (compact v 0 m)
        \<and> (\<forall>p. p < SEGMENT_SIZE \<longrightarrow> \<not> valid (segments (snd (garbageCollect m)) v) p)
        \<and> (v \<noteq> 0 \<longrightarrow>
              (\<forall>p. valid (segments (snd (garbageCollect m)) 0) p
                    \<longleftrightarrow> valid (segments m 0) p \<or> p < SEGMENT_SIZE \<and> valid (segments m v) p)
              \<and> utilization (segments (snd (garbageCollect m)) 0)
                  = utilization (segments m 0)
                    + of_nat (card {p. p < SEGMENT_SIZE \<and> valid (segments m v) p
                                        \<and> \<not> valid (segments m 0) p})))"
proof -
  have d: "findSegmentForWrite m 0 = Some 0" using assms by (rule reachable_destination)
  have nd: "fst (garbageCollect m) \<noteq> NoDestination"
  proof (cases "victim_of m")
    case None
    then show ?thesis by (simp add: garbageCollect_outcome)
  next
    case (Some w)
    obtain c where "fst (account_cost w (compact w 0 m)) = VictimReclaimed (segmentId (segments (compact w 0 m) w)) c"
      using account_cost_outcome by blast
    then show ?thesis using Some d by (simp add: garbageCollect_outcome)
  qed
  have rest: "garbageCollect m = account_cost v (compact v 0 m)
        \<and> (\<forall>p. p < SEGMENT_SIZE \<longrightarrow> \<not> valid (segments (snd (garbageCollect m)) v) p)
        \<and> (v \<noteq> 0 \<longrightarrow>
              (\<forall>p. valid (segments (snd (garbageCollect m)) 0) p
                    \<longleftrightarrow> valid (segments m 0) p \<or> p < SEGMENT_SIZE \<and> valid (segments m v) p)
              \<and> utilization (segments (snd (garbageCollect m)) 0)
                  = utilization (segments m 0)
                    + of_nat (card {p. p < SEGMENT_SIZE \<and> valid (segments m v) p
                                        \<and> \<not> valid (segments m 0) p}))"
    if v: "victim_of m = Some v"
  proof (intro conjI allI impI)
    show g: "garbageCollect m = account_cost v (compact v 0 m)"
      using v d by (rule garbageCollect_reclaim)
    show "\<not> valid (segments (snd (garbageCollect m)) v) p" if "p < SEGMENT_SIZE" for p
      using that by (simp add: g account_cost_proj compact_victim)
    show "valid (segments (snd (garbageCollect m)) 0) p
          \<longleftrightarrow> valid (segments m 0) p \<or> p < SEGMENT_SIZE \<and> valid (segments m v) p"
      if "v \<noteq> 0" for p
      using that by (simp add: g account_cost_proj compact_destination)
    show "utilization (segments (snd (garbageCollect m)) 0)
          = utilization (segments m 0)
            + of_nat (card {p. p < SEGMENT_SIZE \<and> valid (segments m v) p \<and> \<not> valid (segments m 0) p})"
      if "v \<noteq> 0"
    proof -
      have "{p \<in> {p. p < SEGMENT_SIZE \<and> valid (segments m v) p}. \<not> valid (segments m 0) p}
            = {p. p < SEGMENT_SIZE \<and> valid (segments m v) p \<and> \<not> valid (segments m 0) p}"
        by auto
      then show ?thesis using that compact_destination(2) [of v 0 m]
        by (simp add: g account_cost_proj)
    qed
  qed
  show ?thesis using d nd rest by blast
qed

lemma fresh_blank:
  "i < NUM_SEGMENTS \<Longrightarrow> utilization (segments (initSegmentManager blank) i) = 0"
  "i < NUM_SEGMENTS \<Longrightarrow> invalidatedBytes (segments (initSegmentManager blank) i) = 0"
  "i < NUM_SEGMENTS \<Longrightarrow> \<not> valid (segments (initSegmentManager blank) i) p"
  by (simp_all add: init_proj init_fields_proj blank_def blank_segment_def)

lemma span_0_1024: "span 0 1024 = {0..<1024}"
  by (auto simp: span_def SEGMENT_SIZE_def)

lemma full0_eq: "full0 = write_into 0 \<lparr>offset = 0, size_w = 1024\<rparr> (initSegmentManager blank)"
proof -
  have "fits (initSegmentManager blank) 1024 0"
    by (simp add: fits_def fresh_blank NUM_SEGMENTS_pos SEGMENT_SIZE_def)
  then have "findSegmentForWrite (initSegmentManager blank) 1024 = Some 0"
    by (rule findSegmentForWrite_Some0)
  then show ?thesis by (simp add: full0_def processWriteRequest_Some)
qed

lemma full0_cards:
  "card {p \<in> span 0 1024. \<not> valid (segments (initSegmentManager blank) 0) p} = 1024"
  "card {p \<in> span 0 1024. valid (segments (initSegmentManager blank) 0) p} = 0"
proof -
  have a: "{p \<in> span 0 1024. \<not> valid (segments (initSegmentManager blank) 0) p} = {0..<1024}"
    by (auto simp: span_0_1024 fresh_blank NUM_SEGMENTS_pos)
  show "card {p \<in> span 0 1024. \<not> valid (segments (initSegmentManager blank) 0) p} = 1024"
    unfolding a by simp
  have b: "{p \<in> span 0 1024. valid (segments (initSegmentManager blank) 0) p} = {}"
    by (auto simp: span_0_1024 fresh_blank NUM_SEGMENTS_pos)
  show "card {p \<in> span 0 1024. valid (segments (initSegmentManager blank) 0) p} = 0"
    unfolding b by simp
qed

lemma full0_seg0:
  "utilization (segments full0 0) = 1024"
  "invalidatedBytes (segments full0 0) = 0"
  "valid (segments full0 0) p \<longleftrightarrow> p < 1024"
  by (auto simp add: full0_eq write_into_target full0_cards fresh_blank NUM_SEGMENTS_pos span_0_1024)

lemma full0_others:
  "i \<noteq> 0 \<Longrightarrow> i < NUM_SEGMENTS \<Longrightarrow> utilization (segments full0 i) = 0"
  "i \<noteq> 0 \<Longrightarrow> i < NUM_SEGMENTS \<Longrightarrow> invalidatedBytes (segments full0 i) = 0"
  "i \<noteq> 0 \<Longrightarrow> i < NUM_SEGMENTS \<Longrightarrow> \<not> valid (segments full0 i) p"
  by (simp_all add: full0_eq write_into_frame fresh_blank)

lemma one_lt_NUM_SEGMENTS: "Suc 0 < NUM_SEGMENTS"
  by (simp add: NUM_SEGMENTS_def)

lemma findSegmentForWrite_Some1:
  "\<not> fits m sz 0 \<Longrightarrow> fits m sz (Suc 0) \<Longrightarrow> findSegmentForWrite m sz = Some (Suc 0)"
  using one_lt_NUM_SEGMENTS by (simp add: findSegmentForWrite_Some_iff)

lemma full0_five_eq: "full0_five = write_into (Suc 0) \<lparr>offset = 0, size_w = 5\<rparr> full0"
proof -
  have "\<not> fits full0 5 0" by (simp add: fits_def full0_seg0 SEGMENT_SIZE_def)
  moreover have "fits full0 5 (Suc 0)"
    using full0_others(1) [of "Suc 0"] one_lt_NUM_SEGMENTS by (simp add: fits_def SEGMENT_SIZE_def)
  ultimately have "findSegmentForWrite full0 5 = Some (Suc 0)" by (rule findSegmentForWrite_Some1)
  then show ?thesis by (simp add: full0_five_def processWriteRequest_Some)
qed

lemma full0_five_cards:
  "card {p \<in> span 0 5. \<not> valid (segments full0 (Suc 0)) p} = 5"
  "card {p \<in> span 0 5. valid (segments full0 (Suc 0)) p} = 0"
proof -
  have n: "\<not> valid (segments full0 (Suc 0)) p" for p
    using full0_others(3) [of "Suc 0" p] one_lt_NUM_SEGMENTS by simp
  have a: "{p \<in> span 0 5. \<not> valid (segments full0 (Suc 0)) p} = {0..<5}"
    using n by (auto simp: span_0_5)
  show "card {p \<in> span 0 5. \<not> valid (segments full0 (Suc 0)) p} = 5" unfolding a by simp
  have b: "{p \<in> span 0 5. valid (segments full0 (Suc 0)) p} = {}" using n by auto
  show "card {p \<in> span 0 5. valid (segments full0 (Suc 0)) p} = 0" unfolding b by simp
qed

lemma full0_five_seg1:
  "utilization (segments full0_five (Suc 0)) = 5"
  "invalidatedBytes (segments full0_five (Suc 0)) = 0"
  "valid (segments full0_five (Suc 0)) p \<longleftrightarrow> p < 5"
proof -
  have z: "utilization (segments full0 (Suc 0)) = 0" "invalidatedBytes (segments full0 (Suc 0)) = 0"
    "\<not> valid (segments full0 (Suc 0)) p"
    using full0_others [of "Suc 0"] one_lt_NUM_SEGMENTS by simp_all
  show "utilization (segments full0_five (Suc 0)) = 5"
    by (simp add: full0_five_eq write_into_target full0_five_cards z)
  show "invalidatedBytes (segments full0_five (Suc 0)) = 0"
    by (simp add: full0_five_eq write_into_target full0_five_cards z)
  show "valid (segments full0_five (Suc 0)) p \<longleftrightarrow> p < 5"
    using z(3) by (auto simp add: full0_five_eq write_into_target span_0_5)
qed

lemma full0_five_seg0: "segments full0_five 0 = segments full0 0"
  by (simp add: full0_five_eq write_into_frame)

lemma full0_over_eq: "full0_over = write_into (Suc 0) \<lparr>offset = 2, size_w = 3\<rparr> full0_five"
proof -
  have "\<not> fits full0_five 3 0" by (simp add: fits_def full0_five_seg0 full0_seg0 SEGMENT_SIZE_def)
  moreover have "fits full0_five 3 (Suc 0)"
    by (simp add: fits_def full0_five_seg1 SEGMENT_SIZE_def)
  ultimately have "findSegmentForWrite full0_five 3 = Some (Suc 0)" by (rule findSegmentForWrite_Some1)
  then show ?thesis by (simp add: full0_over_def processWriteRequest_Some)
qed

lemma full0_over_cards:
  "card {p \<in> span 2 3. valid (segments full0_five (Suc 0)) p} = 3"
  "card {p \<in> span 2 3. \<not> valid (segments full0_five (Suc 0)) p} = 0"
proof -
  have a: "{p \<in> span 2 3. valid (segments full0_five (Suc 0)) p} = {2..<5}"
    by (auto simp: span_2_3 full0_five_seg1)
  show "card {p \<in> span 2 3. valid (segments full0_five (Suc 0)) p} = 3" unfolding a by simp
  have b: "{p \<in> span 2 3. \<not> valid (segments full0_five (Suc 0)) p} = {}"
    by (auto simp: span_2_3 full0_five_seg1)
  show "card {p \<in> span 2 3. \<not> valid (segments full0_five (Suc 0)) p} = 0" unfolding b by simp
qed

lemma full0_over_seg1:
  "utilization (segments full0_over (Suc 0)) = 5"
  "invalidatedBytes (segments full0_over (Suc 0)) = 3"
  "valid (segments full0_over (Suc 0)) p \<longleftrightarrow> p < 5"
proof -
  show "utilization (segments full0_over (Suc 0)) = 5"
    by (simp add: full0_over_eq write_into_target full0_over_cards full0_five_seg1(1,2))
  show "invalidatedBytes (segments full0_over (Suc 0)) = 3"
    by (simp add: full0_over_eq write_into_target full0_over_cards full0_five_seg1(1,2))
  show "valid (segments full0_over (Suc 0)) p \<longleftrightarrow> p < 5"
    by (auto simp add: full0_over_eq write_into_target span_2_3 full0_five_seg1)
qed

lemma full0_over_seg0:
  "utilization (segments full0_over 0) = 1024"
  "invalidatedBytes (segments full0_over 0) = 0"
  "valid (segments full0_over 0) p \<longleftrightarrow> p < 1024"
  by (simp_all add: full0_over_eq write_into_frame full0_five_seg0 full0_seg0)

lemma full0_over_others:
  "i \<noteq> 0 \<Longrightarrow> i \<noteq> Suc 0 \<Longrightarrow> i < NUM_SEGMENTS \<Longrightarrow> utilization (segments full0_over i) = 0"
  by (simp add: full0_over_eq full0_five_eq write_into_frame full0_others)

lemma full0_over_victim: "victim_of full0_over = Some (Suc 0)"
proof -
  have "first_max full0_over (Suc 0)"
    unfolding first_max_def
  proof (intro conjI allI impI)
    show "Suc 0 < NUM_SEGMENTS" by (rule one_lt_NUM_SEGMENTS)
    show "0 < utilization (segments full0_over (Suc 0))" by (simp add: full0_over_seg1)
    show "0 < invalidatedBytes (segments full0_over (Suc 0))" by (simp add: full0_over_seg1)
    show "invalidatedBytes (segments full0_over j) \<le> invalidatedBytes (segments full0_over (Suc 0))"
      if "j < NUM_SEGMENTS" "0 < utilization (segments full0_over j)" for j
    proof -
      have "j = 0 \<or> j = Suc 0"
      proof (rule ccontr)
        assume "\<not> (j = 0 \<or> j = Suc 0)"
        then have "utilization (segments full0_over j) = 0"
          using that(1) by (simp add: full0_over_others)
        with that(2) show False by simp
      qed
      then show ?thesis by (auto simp: full0_over_seg0 full0_over_seg1)
    qed
    show "invalidatedBytes (segments full0_over j) < invalidatedBytes (segments full0_over (Suc 0))"
      if "j < Suc 0" for j
      using that by (simp add: full0_over_seg0 full0_over_seg1)
  qed
  then show ?thesis by (simp add: victim_of_Some_iff)
qed

lemma full0_over_reachable: "reachable_from blank full0_over"
  unfolding full0_over_def full0_five_def full0_def
  by (intro reachable_from.intros)

lemma full0_over_victim_1: "victim_of full0_over = Some 1"
  by (simp add: full0_over_victim)

lemma SEGMENT_SIZE_pos: "0 < SEGMENT_SIZE"
  by (simp add: SEGMENT_SIZE_def)

text \<open>
  Segment 0 is full (1024 valid bytes), segment 1 holds 5 valid and 3 invalidated bytes:
  the collection picks segment 1, copies into the full segment 0, whose utilization stays
  1024, and resets segment 1.
\<close>

theorem compaction_goes_to_segment_0_witness:
  "reachable_from blank full0_over
   \<and> victim_of full0_over = Some 1
   \<and> utilization (segments full0_over 0) = 1024
   \<and> utilization (segments full0_over 1) = 5
   \<and> findSegmentForWrite full0_over 0 = Some 0
   \<and> fst (garbageCollect full0_over) \<noteq> NoDestination
   \<and> utilization (segments (snd (garbageCollect full0_over)) 0) = 1024
   \<and> \<not> valid (segments (snd (garbageCollect full0_over)) 1) 0"
proof -
  have c: "{p. p < SEGMENT_SIZE \<and> valid (segments full0_over 1) p \<and> \<not> valid (segments full0_over 0) p} = {}"
    by (auto simp: full0_over_seg0 full0_over_seg1)
  have ne: "(1::nat) \<noteq> 0" by simp
  from compaction_goes_to_segment_0 [OF full0_over_reachable, of 1] full0_over_victim_1 SEGMENT_SIZE_pos ne
  have "findSegmentForWrite full0_over 0 = Some 0
      \<and> fst (garbageCollect full0_over) \<noteq> NoDestination
      \<and> \<not> valid (segments (snd (garbageCollect full0_over)) 1) 0
      \<and> utilization (segments (snd (garbageCollect full0_over)) 0)
          = utilization (segments full0_over 0)
            + of_nat (card {p. p < SEGMENT_SIZE \<and> valid (segments full0_over 1) p
                                \<and> \<not> valid (segments full0_over 0) p})"
    by blast
  then show ?thesis
    unfolding c
    by (simp add: full0_over_reachable full0_over_victim full0_over_seg0(1) full0_over_seg1(1))
qed

lemma store_ok_init:
  assumes "clean mem"
  shows "store_ok (initSegmentManager mem)"
  unfolding store_ok_def
proof
  fix i assume i: "i \<in> {..<NUM_SEGMENTS}"
  have "\<not> valid (segments (initSegmentManager mem) i) p" if "p < SEGMENT_SIZE" for p
    using assms i that by (auto simp: clean_def init_proj init_fields_proj)
  then have "{p. p < SEGMENT_SIZE \<and> valid (segments (initSegmentManager mem) i) p} = {}" by auto
  then show "seg_ok (segments (initSegmentManager mem) i)"
    using i by (simp add: seg_ok_def valid_count_card init_proj init_fields_proj)
qed

lemma reachable_ok:
  assumes "reachable_from mem m" and "clean mem"
  shows "store_ok m"
  using assms
proof (induction rule: reachable_from.induct)
  case after_init
  then show ?case by (rule store_ok_init)
next
  case (after_write m r)
  then show ?case by (simp add: store_ok_processWriteRequest)
next
  case (after_collect m)
  then show ?case by (simp add: store_ok_garbageCollect)
qed

lemma clean_blank: "clean blank"
  by (simp add: clean_def blank_def blank_segment_def)

lemma span_300_1: "span 300 1 = {300}"
  by (auto simp: span_def SEGMENT_SIZE_def)

lemma used_store_eq:
  "used_store = write_into 0 \<lparr>offset = 300, size_w = 1\<rparr> (initSegmentManager blank)"
proof -
  have "fits (initSegmentManager blank) 1 0"
    by (simp add: fits_def fresh_blank NUM_SEGMENTS_pos SEGMENT_SIZE_def)
  then have "findSegmentForWrite (initSegmentManager blank) 1 = Some 0"
    by (rule findSegmentForWrite_Some0)
  then show ?thesis by (simp add: used_store_def processWriteRequest_Some)
qed

lemma used_store_valid: "valid (segments used_store 0) p \<longleftrightarrow> p = 300"
  by (simp add: used_store_eq write_into_target span_300_1 fresh_blank NUM_SEGMENTS_pos)

lemma used_store_ok: "store_ok used_store"
  unfolding used_store_def
  by (intro reachable_ok [OF _ clean_blank] reachable_from.intros)

lemma reinit_valid:
  "valid (segments (initSegmentManager used_store) 0) p \<longleftrightarrow> p = 300"
  by (auto simp: init_proj init_fields_proj NUM_SEGMENTS_pos used_store_valid
      SEGMENT_SIZE_def sizeof_int_def)

text \<open>
  Claim C1 asks that in every manager reached from \<^verbatim>\<open>initSegmentManager\<close> the utilization of
  a segment is the number of its valid positions, and at most the capacity. Every operation
  preserves this (\<open>store_ok_processWriteRequest\<close>, \<open>store_ok_garbageCollect\<close>), it holds in
  every manager reached from memory whose validity entries from 256 on are clear
  (\<open>reachable_ok\<close>), and the bound by the capacity holds from any memory
  (\<open>reachable_capacity\<close>). But \<^verbatim>\<open>initSegmentManager\<close> does not establish it: its \<^verbatim>\<open>memset\<close>
  on \<^verbatim>\<open>valid\<close> clears 1024 bytes, which are 256 of the 1024 entries. On a manager that has
  been used for one write at offset 300, segment 0 comes out with utilization 0 and
  position 300 still valid.
\<close>

theorem reinitialised_store_keeps_validity_bit:
  "utilization (segments used_store 0) = 1
   \<and> valid_count (segments used_store 0) = 1
   \<and> utilization (segments (initSegmentManager used_store) 0) = 0
   \<and> valid (segments (initSegmentManager used_store) 0) 300
   \<and> valid_count (segments (initSegmentManager used_store) 0) = 1"
proof -
  have a: "{p. p < SEGMENT_SIZE \<and> valid (segments used_store 0) p} = {300}"
    by (auto simp: used_store_valid SEGMENT_SIZE_def)
  have b: "{p. p < SEGMENT_SIZE \<and> valid (segments (initSegmentManager used_store) 0) p} = {300}"
    by (auto simp: reinit_valid SEGMENT_SIZE_def)
  have c: "valid_count (segments used_store 0) = 1"
    unfolding valid_count_card a by simp
  have "seg_ok (segments used_store 0)"
    using used_store_ok NUM_SEGMENTS_pos by (simp add: store_ok_def)
  then have u: "unat (utilization (segments used_store 0)) = 1" by (simp add: seg_ok_def c)
  have "utilization (segments used_store 0) = 1"
  proof -
    have "utilization (segments used_store 0) = of_nat (unat (utilization (segments used_store 0)))"
      by simp
    then show ?thesis unfolding u by simp
  qed
  moreover have "valid_count (segments (initSegmentManager used_store) 0) = 1"
    unfolding valid_count_card b by simp
  moreover have "utilization (segments (initSegmentManager used_store) 0) = 0"
    by (simp add: init_proj init_fields_proj NUM_SEGMENTS_pos)
  ultimately show ?thesis using c by (simp add: reinit_valid)
qed

lemma word_le_add_of_nat:
  fixes u :: u64
  assumes "unat u + k < 2 ^ 64"
  shows "u \<le> u + of_nat k"
proof -
  have "unat (u + of_nat k) = unat u + k" using assms by (rule unat_add_of_nat)
  then show ?thesis by (simp add: word_le_nat_alt)
qed

lemma word_le_add_1:
  fixes u :: u64
  assumes "unat u < 2 ^ 64 - 1"
  shows "u \<le> u + 1"
proof -
  have "unat u + 1 < 2 ^ 64" using assms by simp
  then have "u \<le> u + of_nat 1" by (rule word_le_add_of_nat)
  then show ?thesis by simp
qed

lemma card_span_le: "card {p \<in> span off sz. P p} \<le> SEGMENT_SIZE"
proof -
  have "{p \<in> span off sz. P p} \<subseteq> {..<SEGMENT_SIZE}" using span_subset by auto
  then have "card {p \<in> span off sz. P p} \<le> card {..<SEGMENT_SIZE}" by (intro card_mono) simp_all
  then show ?thesis by simp
qed

lemma garbageCollect_invalidatedBytes:
  "invalidatedBytes (segments (snd (garbageCollect m)) i)
     = (if reclaimed m i then 0 else invalidatedBytes (segments m i))"
proof (cases "victim_of m")
  case None
  then show ?thesis by (simp add: garbageCollect_NoVictim reclaimed_def)
next
  case (Some v)
  show ?thesis
  proof (cases "findSegmentForWrite m 0")
    case None
    then show ?thesis using Some by (simp add: garbageCollect_NoDestination reclaimed_def)
  next
    case d: (Some d)
    have g: "garbageCollect m = account_cost v (compact v d m)"
      using Some d by (rule garbageCollect_reclaim)
    have "invalidatedBytes (segments (compact v d m) i)
          = (if i = v then 0 else invalidatedBytes (segments m i))"
      by (simp add: compact_eq reset_victim_def copied_def seg_update_def written_def clear_below_def)
    then show ?thesis using Some d by (auto simp: g account_cost_proj reclaimed_def)
  qed
qed

lemma write_into_invalidatedBytes:
  "invalidatedBytes (segments (write_into t r m) i)
     = (if i = t
        then invalidatedBytes (segments m t)
             + of_nat (card {p \<in> span (offset r) (size_w r). valid (segments m t) p})
        else invalidatedBytes (segments m i))"
  by (simp add: write_into_target write_into_frame)

lemma write_into_grows:
  assumes "unat (invalidatedBytes (segments m i)) + SEGMENT_SIZE < 2 ^ 64"
  shows "invalidatedBytes (segments m i) \<le> invalidatedBytes (segments (write_into t r m) i)"
proof (cases "i = t")
  case True
  let ?k = "card {p \<in> span (offset r) (size_w r). valid (segments m t) p}"
  have "?k \<le> SEGMENT_SIZE" by (rule card_span_le)
  with assms True have "unat (invalidatedBytes (segments m t)) + ?k < 2 ^ 64" by simp
  then have "invalidatedBytes (segments m t) \<le> invalidatedBytes (segments m t) + of_nat ?k"
    by (rule word_le_add_of_nat)
  then show ?thesis using True by (simp add: write_into_invalidatedBytes)
next
  case False
  then show ?thesis by (simp add: write_into_invalidatedBytes)
qed

lemma write_into_total_grows:
  assumes "unat (totalInvalidated m) + SEGMENT_SIZE < 2 ^ 64"
  shows "totalInvalidated m \<le> totalInvalidated (write_into t r m)"
proof -
  let ?k = "card {p \<in> span (offset r) (size_w r). valid (segments m t) p}"
  have "?k \<le> SEGMENT_SIZE" by (rule card_span_le)
  with assms have "unat (totalInvalidated m) + ?k < 2 ^ 64" by simp
  then have "totalInvalidated m \<le> totalInvalidated m + of_nat ?k"
    by (rule word_le_add_of_nat)
  then show ?thesis by (simp add: write_into_frame)
qed

lemma base_of_cases:
  "base_of m r = m \<or> (findSegmentForWrite m (size_w r) = None \<and> base_of m r = snd (garbageCollect m))"
  by (simp add: base_of_def split: option.splits)

lemma base_of_counters:
  "totalWrites (base_of m r) = totalWrites m"
  "totalInvalidated (base_of m r) = totalInvalidated m"
  using base_of_cases [of m r] by (auto simp: garbageCollect_counters)

lemma base_of_gcCount:
  "gcCount (base_of m r) = gcCount m \<or> gcCount (base_of m r) = gcCount m + 1"
  using base_of_cases [of m r] by (auto simp: garbageCollect_gcCount split: if_splits)

lemma base_of_invalidatedBytes:
  "invalidatedBytes (segments (base_of m r) i) = invalidatedBytes (segments m i)
   \<or> (findSegmentForWrite m (size_w r) = None \<and> reclaimed m i
       \<and> invalidatedBytes (segments (base_of m r) i) = 0)"
  using base_of_cases [of m r] by (auto simp: garbageCollect_invalidatedBytes split: if_splits)

lemma processWriteRequest_cases:
  "snd (processWriteRequest m r) = base_of m r
   \<or> (\<exists>t. snd (processWriteRequest m r) = write_into t r (base_of m r))"
  by (auto simp add: processWriteRequest_base split: option.splits)

text \<open>
  Claim C7. Where the counters are not about to wrap around (\<^verbatim>\<open>totalWrites\<close> and \<^verbatim>\<open>gcCount\<close>
  below \<open>2 ^ 64 - 1\<close>, \<^verbatim>\<open>totalInvalidated\<close> and the segment's \<^verbatim>\<open>invalidatedBytes\<close> more than
  \<^verbatim>\<open>SEGMENT_SIZE\<close> below \<open>2 ^ 64\<close>), a write request and a collection never decrease
  \<^verbatim>\<open>totalWrites\<close>, \<^verbatim>\<open>totalInvalidated\<close> and \<^verbatim>\<open>gcCount\<close>. A write request decreases
  \<^verbatim>\<open>invalidatedBytes\<close> of segment \<open>i\<close> only if its forced collection reclaimed \<open>i\<close>; a
  collection sets it to 0 if it reclaims \<open>i\<close> and leaves it as it is otherwise. \<open>reclaimed m i\<close>
  says that the collection on \<open>m\<close> frees a victim and the victim is \<open>i\<close>.
\<close>

theorem counters_never_decrease_without_wrap:
  assumes "unat (totalWrites m) < 2 ^ 64 - 1"
    and "unat (gcCount m) < 2 ^ 64 - 1"
    and "unat (totalInvalidated m) + SEGMENT_SIZE < 2 ^ 64"
    and "unat (invalidatedBytes (segments m i)) + SEGMENT_SIZE < 2 ^ 64"
  shows "totalWrites m \<le> totalWrites (snd (processWriteRequest m r))
   \<and> totalInvalidated m \<le> totalInvalidated (snd (processWriteRequest m r))
   \<and> gcCount m \<le> gcCount (snd (processWriteRequest m r))
   \<and> (invalidatedBytes (segments m i) \<le> invalidatedBytes (segments (snd (processWriteRequest m r)) i)
       \<or> findSegmentForWrite m (size_w r) = None \<and> reclaimed m i)
   \<and> totalWrites (snd (garbageCollect m)) = totalWrites m
   \<and> totalInvalidated (snd (garbageCollect m)) = totalInvalidated m
   \<and> gcCount m \<le> gcCount (snd (garbageCollect m))
   \<and> invalidatedBytes (segments (snd (garbageCollect m)) i)
       = (if reclaimed m i then 0 else invalidatedBytes (segments m i))
   \<and> (reclaimed m i \<longleftrightarrow> (\<exists>sid c. fst (garbageCollect m) = VictimReclaimed sid c) \<and> victim_of m = Some i)"
proof (intro conjI)
  let ?b = "base_of m r"
  let ?m' = "snd (processWriteRequest m r)"
  have one: "gcCount m \<le> gcCount m + 1" using assms(2) by (rule word_le_add_1)
  show "totalWrites m \<le> totalWrites ?m'"
    using processWriteRequest_cases [of m r] word_le_add_1 [OF assms(1)]
    by (auto simp: write_into_frame base_of_counters)
  show "totalInvalidated m \<le> totalInvalidated ?m'"
  proof -
    have "unat (totalInvalidated ?b) + SEGMENT_SIZE < 2 ^ 64"
      using assms(3) by (simp add: base_of_counters)
    then have "totalInvalidated ?b \<le> totalInvalidated (write_into t r ?b)" for t
      by (rule write_into_total_grows)
    then show ?thesis using processWriteRequest_cases [of m r]
      by (auto simp: base_of_counters)
  qed
  show "gcCount m \<le> gcCount ?m'"
    using processWriteRequest_cases [of m r] base_of_gcCount [of m r] one
    by (auto simp: write_into_frame)
  show "invalidatedBytes (segments m i) \<le> invalidatedBytes (segments ?m' i)
       \<or> findSegmentForWrite m (size_w r) = None \<and> reclaimed m i"
  proof (cases "findSegmentForWrite m (size_w r) = None \<and> reclaimed m i")
    case True
    then show ?thesis by simp
  next
    case False
    then have e: "invalidatedBytes (segments ?b i) = invalidatedBytes (segments m i)"
      using base_of_invalidatedBytes [of m r i] by auto
    then have "unat (invalidatedBytes (segments ?b i)) + SEGMENT_SIZE < 2 ^ 64"
      using assms(4) by simp
    then have "invalidatedBytes (segments ?b i) \<le> invalidatedBytes (segments (write_into t r ?b) i)" for t
      by (rule write_into_grows)
    then show ?thesis using processWriteRequest_cases [of m r] e by auto
  qed
  show "totalWrites (snd (garbageCollect m)) = totalWrites m" by (rule garbageCollect_counters)
  show "totalInvalidated (snd (garbageCollect m)) = totalInvalidated m" by (rule garbageCollect_counters)
  show "gcCount m \<le> gcCount (snd (garbageCollect m))"
    using one by (simp add: garbageCollect_gcCount)
  show "invalidatedBytes (segments (snd (garbageCollect m)) i)
       = (if reclaimed m i then 0 else invalidatedBytes (segments m i))"
    by (rule garbageCollect_invalidatedBytes)
  show "reclaimed m i \<longleftrightarrow> (\<exists>sid c. fst (garbageCollect m) = VictimReclaimed sid c) \<and> victim_of m = Some i"
  proof (cases "victim_of m")
    case None
    then show ?thesis by (simp add: reclaimed_def garbageCollect_outcome)
  next
    case (Some v)
    show ?thesis
    proof (cases "findSegmentForWrite m 0")
      case None
      then show ?thesis using Some by (simp add: reclaimed_def garbageCollect_outcome)
    next
      case d: (Some d)
      obtain c where "fst (account_cost v (compact v d m)) = VictimReclaimed (segmentId (segments (compact v d m) v)) c"
        using account_cost_outcome by blast
      then show ?thesis using Some d by (auto simp: reclaimed_def garbageCollect_outcome)
    qed
  qed
qed

lemma overwritten_reclaimed: "reclaimed (overwritten mem) 0"
  by (simp add: reclaimed_def overwritten_victim overwritten_destination)

text \<open>
  After the two requests of the scenario, segment 0 has 3 invalidated bytes and is the
  victim: the collection resets them to 0, and the counters do not decrease.
\<close>

theorem counters_never_decrease_without_wrap_witness:
  "invalidatedBytes (segments (overwritten blank) 0) = 3
   \<and> reclaimed (overwritten blank) 0
   \<and> invalidatedBytes (segments (snd (garbageCollect (overwritten blank))) 0) = 0
   \<and> gcCount (overwritten blank) \<le> gcCount (snd (garbageCollect (overwritten blank)))
   \<and> totalWrites (overwritten blank)
        \<le> totalWrites (snd (processWriteRequest (overwritten blank) \<lparr>offset = 2, size_w = 3\<rparr>))
   \<and> totalInvalidated (overwritten blank)
        \<le> totalInvalidated (snd (processWriteRequest (overwritten blank) \<lparr>offset = 2, size_w = 3\<rparr>))"
proof -
  have h1: "unat (totalWrites (overwritten blank)) < 2 ^ 64 - 1"
    by (simp add: overwritten_seg0)
  have h2: "unat (gcCount (overwritten blank)) < 2 ^ 64 - 1"
    by (simp add: overwritten_gcCount)
  have h3: "unat (totalInvalidated (overwritten blank)) + SEGMENT_SIZE < 2 ^ 64"
    by (simp add: overwritten_seg0 SEGMENT_SIZE_def)
  have h4: "unat (invalidatedBytes (segments (overwritten blank) 0)) + SEGMENT_SIZE < 2 ^ 64"
    by (simp add: overwritten_seg0 SEGMENT_SIZE_def)
  from counters_never_decrease_without_wrap [OF h1 h2 h3 h4, of "\<lparr>offset = 2, size_w = 3\<rparr>"]
  have "totalWrites (overwritten blank)
          \<le> totalWrites (snd (processWriteRequest (overwritten blank) \<lparr>offset = 2, size_w = 3\<rparr>))
      \<and> totalInvalidated (overwritten blank)
          \<le> totalInvalidated (snd (processWriteRequest (overwritten blank) \<lparr>offset = 2, size_w = 3\<rparr>))
      \<and> gcCount (overwritten blank) \<le> gcCount (snd (garbageCollect (overwritten blank)))
      \<and> invalidatedBytes (segments (snd (garbageCollect (overwritten blank))) 0)
          = (if reclaimed (overwritten blank) 0 then 0
             else invalidatedBytes (segments (overwritten blank) 0))"
    by blast
  then show ?thesis by (simp add: overwritten_reclaimed overwritten_seg0)
qed

lemma wrapping_eq:
  "processWriteRequest wrapping \<lparr>offset = 0, size_w = 1\<rparr>
     = (Accepted, write_into 0 \<lparr>offset = 0, size_w = 1\<rparr> wrapping)"
proof -
  have "fits wrapping 1 0"
    by (simp add: fits_def wrapping_def fresh_blank NUM_SEGMENTS_pos SEGMENT_SIZE_def)
  then have "findSegmentForWrite wrapping 1 = Some 0" by (rule findSegmentForWrite_Some0)
  then show ?thesis by (simp add: processWriteRequest_Some)
qed

text \<open>
  Without the bound the statement fails: with \<^verbatim>\<open>totalWrites\<close> at \<open>2 ^ 64 - 1\<close> an accepted
  request takes it to 0.
\<close>

theorem totalWrites_wraps_counterexample:
  "totalWrites wrapping = 18446744073709551615
   \<and> processWriteRequest wrapping \<lparr>offset = 0, size_w = 1\<rparr>
        = (Accepted, write_into 0 \<lparr>offset = 0, size_w = 1\<rparr> wrapping)
   \<and> totalWrites (snd (processWriteRequest wrapping \<lparr>offset = 0, size_w = 1\<rparr>)) = 0
   \<and> totalWrites (snd (processWriteRequest wrapping \<lparr>offset = 0, size_w = 1\<rparr>)) < totalWrites wrapping"
proof -
  have a: "totalWrites wrapping = 18446744073709551615" by (simp add: wrapping_def)
  have b: "totalWrites (write_into 0 \<lparr>offset = 0, size_w = 1\<rparr> wrapping) = 0"
    by (simp add: write_into_frame a)
  show ?thesis by (simp add: wrapping_eq a b)
qed

lemma span_iff: "p \<in> span off sz \<longleftrightarrow> unat off \<le> p \<and> p < unat (off + sz) \<and> p < SEGMENT_SIZE"
  by (auto simp: span_def)

lemma invalidateOldData_valid:
  "valid (segments (invalidateOldData t off sz m) i) p
     \<longleftrightarrow> valid (segments m i) p \<and> \<not> (i = t \<and> p \<in> span off sz)"
  by (simp add: invalidateOldData_eq invalidated_proj)

lemma invalidateOldData_data:
  "data (segments (invalidateOldData t off sz m) i) = data (segments m i)"
  by (simp add: invalidateOldData_eq invalidated_proj)

lemma writeToSegment_valid:
  "valid (segments (writeToSegment t off sz m) i) p
     \<longleftrightarrow> valid (segments m i) p \<or> i = t \<and> p \<in> span off sz"
  by (simp add: writeToSegment_eq written_proj)

lemma writeToSegment_data:
  "data (segments (writeToSegment t off sz m) i) p
     = (if i = t \<and> p \<in> span off sz then 1 else data (segments m i) p)"
  by (simp add: writeToSegment_eq written_proj)

lemma oversize_never_fits:
  assumes u: "unat (utilization (segments m i)) \<le> SEGMENT_SIZE"
    and lo: "SEGMENT_SIZE < unat sz" and hi: "unat sz < 2 ^ 64 - SEGMENT_SIZE"
  shows "\<not> fits m sz i"
proof -
  have "unat (utilization (segments m i)) + unat sz < 2 ^ 64" using u hi by simp
  then have "unat (utilization (segments m i) + sz) = unat (utilization (segments m i)) + unat sz"
    by (simp add: unat_add_lem [THEN iffD1])
  then show ?thesis using lo by (simp add: fits_def)
qed

lemma oversize_no_room:
  assumes "reachable_from mem m"
    and "SEGMENT_SIZE < unat sz" and "unat sz < 2 ^ 64 - SEGMENT_SIZE"
  shows "findSegmentForWrite m sz = None"
proof -
  have "\<not> fits m sz k" if "k < NUM_SEGMENTS" for k
    using reachable_capacity [OF assms(1) that] assms(2,3) by (rule oversize_never_fits)
  then show ?thesis by (simp add: findSegmentForWrite_None_iff)
qed

lemma oversize_fails:
  assumes "reachable_from mem m"
    and "SEGMENT_SIZE < unat (size_w r)" and "unat (size_w r) < 2 ^ 64 - SEGMENT_SIZE"
  shows "fst (processWriteRequest m r) = AllocationFailure"
proof -
  have "reachable_from mem (snd (garbageCollect m))"
    using assms(1) by (rule reachable_from.after_collect)
  then have "findSegmentForWrite (snd (garbageCollect m)) (size_w r) = None"
    using assms(2,3) by (rule oversize_no_room)
  moreover have "findSegmentForWrite m (size_w r) = None"
    using assms by (rule oversize_no_room)
  ultimately show ?thesis by (simp add: processWriteRequest_failure_iff)
qed

text \<open>
  Claim C8. \<^verbatim>\<open>invalidateOldData\<close> and \<^verbatim>\<open>writeToSegment\<close> change the validity map and the data
  of the target segment at the positions of \<open>span off sz\<close> only, which are the positions
  from \<^verbatim>\<open>offset\<close> up to \<^verbatim>\<open>offset + size\<close> (a 64-bit sum, exact where it does not wrap around)
  that lie below \<^verbatim>\<open>SEGMENT_SIZE\<close>: the first clears every valid one of them, the second
  makes all of them valid. No offset is rejected: a request is accepted whenever
  \<^verbatim>\<open>findSegmentForWrite\<close> finds a segment for its size, and then exactly the positions of
  its range below \<^verbatim>\<open>SEGMENT_SIZE\<close> become valid. The size is not clipped for that search: in
  a manager reached from \<^verbatim>\<open>initSegmentManager\<close>, a request whose size is above
  \<^verbatim>\<open>SEGMENT_SIZE\<close> (and below \<open>2 ^ 64 - SEGMENT_SIZE\<close>, so that no sum wraps around) fails.
\<close>

theorem ranges_are_clipped_sizes_are_not:
  "(p \<in> span off sz \<longleftrightarrow> unat off \<le> p \<and> p < unat (off + sz) \<and> p < SEGMENT_SIZE)
   \<and> (unat off + unat sz < 2 ^ 64 \<longrightarrow> unat (off + sz) = unat off + unat sz)
   \<and> (valid (segments (invalidateOldData t off sz m) i) p
        \<longleftrightarrow> valid (segments m i) p \<and> \<not> (i = t \<and> p \<in> span off sz))
   \<and> data (segments (invalidateOldData t off sz m) i) p = data (segments m i) p
   \<and> (valid (segments (writeToSegment t off sz m) i) p
        \<longleftrightarrow> valid (segments m i) p \<or> i = t \<and> p \<in> span off sz)
   \<and> data (segments (writeToSegment t off sz m) i) p
        = (if i = t \<and> p \<in> span off sz then 1 else data (segments m i) p)
   \<and> (findSegmentForWrite (base_of m r) (size_w r) = Some t \<longrightarrow>
        fst (processWriteRequest m r) = Accepted
        \<and> (valid (segments (snd (processWriteRequest m r)) i) p
             \<longleftrightarrow> valid (segments (base_of m r) i) p \<or> i = t \<and> p \<in> span (offset r) (size_w r)))
   \<and> (reachable_from mem m \<and> SEGMENT_SIZE < unat (size_w r)
        \<and> unat (size_w r) < 2 ^ 64 - SEGMENT_SIZE \<longrightarrow>
        fst (processWriteRequest m r) = AllocationFailure)"
proof (intro conjI impI)
  show "p \<in> span off sz \<longleftrightarrow> unat off \<le> p \<and> p < unat (off + sz) \<and> p < SEGMENT_SIZE"
    by (rule span_iff)
  show "unat (off + sz) = unat off + unat sz" if "unat off + unat sz < 2 ^ 64"
    using that by (simp add: unat_add_lem [THEN iffD1])
  show "valid (segments (invalidateOldData t off sz m) i) p
        \<longleftrightarrow> valid (segments m i) p \<and> \<not> (i = t \<and> p \<in> span off sz)"
    by (rule invalidateOldData_valid)
  show "data (segments (invalidateOldData t off sz m) i) p = data (segments m i) p"
    by (simp add: invalidateOldData_data)
  show "valid (segments (writeToSegment t off sz m) i) p
        \<longleftrightarrow> valid (segments m i) p \<or> i = t \<and> p \<in> span off sz"
    by (rule writeToSegment_valid)
  show "data (segments (writeToSegment t off sz m) i) p
        = (if i = t \<and> p \<in> span off sz then 1 else data (segments m i) p)"
    by (rule writeToSegment_data)
next
  assume f: "findSegmentForWrite (base_of m r) (size_w r) = Some t"
  then have e: "processWriteRequest m r = (Accepted, write_into t r (base_of m r))"
    by (simp add: processWriteRequest_base)
  show "fst (processWriteRequest m r) = Accepted" by (simp add: e)
  show "valid (segments (snd (processWriteRequest m r)) i) p
        \<longleftrightarrow> valid (segments (base_of m r) i) p \<or> i = t \<and> p \<in> span (offset r) (size_w r)"
    by (cases "i = t") (simp_all add: e write_into_target write_into_frame)
next
  assume "reachable_from mem m \<and> SEGMENT_SIZE < unat (size_w r)
        \<and> unat (size_w r) < 2 ^ 64 - SEGMENT_SIZE"
  then show "fst (processWriteRequest m r) = AllocationFailure"
    using oversize_fails [of mem m r] by simp
qed

lemma span_tail: "span 1020 10 = {1020..<1024}"
  by (auto simp: span_def SEGMENT_SIZE_def)

lemma tail_find: "findSegmentForWrite (initSegmentManager blank) 10 = Some 0"
  by (rule findSegmentForWrite_Some0)
     (simp add: fits_def fresh_blank NUM_SEGMENTS_pos SEGMENT_SIZE_def)

lemma tail_base: "base_of (initSegmentManager blank) \<lparr>offset = 1020, size_w = 10\<rparr> = initSegmentManager blank"
  by (simp add: base_of_def tail_find)

text \<open>
  On a manager just initialised the request (offset 1020, size 10) is accepted and makes
  the positions 1020 to 1023 of segment 0 valid, and nothing else; the request
  (offset 0, size 2000) fails.
\<close>

theorem ranges_are_clipped_sizes_are_not_witness:
  "fst (processWriteRequest (initSegmentManager blank) \<lparr>offset = 1020, size_w = 10\<rparr>) = Accepted
   \<and> valid (segments tail_write 0) 1023
   \<and> \<not> valid (segments tail_write 0) 1019
   \<and> \<not> valid (segments tail_write 1) 0
   \<and> reachable_from blank (initSegmentManager blank)
   \<and> fst (processWriteRequest (initSegmentManager blank) \<lparr>offset = 0, size_w = 2000\<rparr>) = AllocationFailure"
proof -
  let ?m = "initSegmentManager blank"
  let ?r = "\<lparr>offset = 1020, size_w = 10\<rparr>"
  let ?big = "\<lparr>offset = 0, size_w = 2000\<rparr>"
  have f: "findSegmentForWrite (base_of ?m ?r) (size_w ?r) = Some 0"
    by (simp add: tail_base tail_find)
  have re: "reachable_from blank ?m" by (rule reachable_from.after_init)
  have h: "reachable_from blank ?m \<and> SEGMENT_SIZE < unat (size_w ?big)
        \<and> unat (size_w ?big) < 2 ^ 64 - SEGMENT_SIZE"
    using re by (simp add: SEGMENT_SIZE_def)
  have n: "\<not> valid (segments ?m i) p" if "i < NUM_SEGMENTS" for i p
    using that by (simp add: fresh_blank)
  have a: "fst (processWriteRequest ?m ?r) = Accepted
      \<and> (valid (segments (snd (processWriteRequest ?m ?r)) 0) 1023
           \<longleftrightarrow> valid (segments (base_of ?m ?r) 0) 1023 \<or> 0 = (0::nat) \<and> 1023 \<in> span (offset ?r) (size_w ?r))"
    using ranges_are_clipped_sizes_are_not [of 1023 "offset ?r" "size_w ?r" 0 ?m 0 ?r blank] f
    by blast
  have b: "valid (segments (snd (processWriteRequest ?m ?r)) 0) 1019
           \<longleftrightarrow> valid (segments (base_of ?m ?r) 0) 1019 \<or> 0 = (0::nat) \<and> 1019 \<in> span (offset ?r) (size_w ?r)"
    using ranges_are_clipped_sizes_are_not [of 1019 "offset ?r" "size_w ?r" 0 ?m 0 ?r blank] f
    by blast
  have c: "valid (segments (snd (processWriteRequest ?m ?r)) 1) 0
           \<longleftrightarrow> valid (segments (base_of ?m ?r) 1) 0 \<or> 1 = (0::nat) \<and> 0 \<in> span (offset ?r) (size_w ?r)"
    using ranges_are_clipped_sizes_are_not [of 0 "offset ?r" "size_w ?r" 0 ?m 1 ?r blank] f
    by blast
  have d: "fst (processWriteRequest ?m ?big) = AllocationFailure"
    using ranges_are_clipped_sizes_are_not [of 0 0 0 0 ?m 0 ?big blank] h
    by blast
  show ?thesis
    using a b c d re n [of 0] n [of 1]
    by (simp add: tail_write_def tail_base span_tail NUM_SEGMENTS_def)
qed

text \<open>
  The range of the request (offset 0, size 2000) reaches past the end of a segment; the
  request is not processed for the positions 0 to 1023: it fails and the manager is
  unchanged.
\<close>

theorem oversize_request_is_dropped_counterexample:
  "processWriteRequest (initSegmentManager blank) \<lparr>offset = 0, size_w = 2000\<rparr>
     = (AllocationFailure, initSegmentManager blank)"
proof -
  let ?m = "initSegmentManager blank"
  have "\<not> fits ?m 2000 k" if "k < NUM_SEGMENTS" for k
    using that by (simp add: fits_def fresh_blank SEGMENT_SIZE_def)
  then have n: "findSegmentForWrite ?m 2000 = None" by (simp add: findSegmentForWrite_None_iff)
  have "victim_of ?m = None"
    by (simp add: victim_of_None_iff fresh_blank)
  then have g: "garbageCollect ?m = (NoVictim, ?m)" by (rule garbageCollect_NoVictim)
  show ?thesis by (simp add: processWriteRequest_None n g)
qed

end
